theory Spec2Isabelle
  imports Complex_Main "HOL-Library.Sublist" "HOL-Library.Multiset"
begin

section \<open>Strings\<close>

text \<open>
  A Python \<open>str\<close> is a sequence of Unicode code points; \<open>len\<close>, slicing, \<open>in\<close>, the
  regular expressions and \<open>difflib\<close> all count code points. A string is therefore a list of
  code points (natural numbers), not a list of bytes.
\<close>

type_synonym pystr = "nat list"

definition str :: "string \<Rightarrow> pystr" where
  "str s = map of_char s"

definition LPAREN :: nat where "LPAREN = 40"
definition RPAREN :: nat where "RPAREN = 41"
definition LBRACK :: nat where "LBRACK = 91"
definition RBRACK :: nat where "RBRACK = 93"
definition LBRACE :: nat where "LBRACE = 123"
definition RBRACE :: nat where "RBRACE = 125"
definition COMMA :: nat where "COMMA = 44"
definition SPACE :: nat where "SPACE = 32"
definition COLON :: nat where "COLON = 58"

text \<open>
  The class \<open>\s\<close> of a \<open>str\<close> pattern and the characters removed by \<open>str.strip()\<close> are
  the same set, the code points for which \<open>Py_UNICODE_ISSPACE\<close> holds.
\<close>

definition is_space :: "nat \<Rightarrow> bool" where
  "is_space c = ((9 \<le> c \<and> c \<le> 13) \<or> (28 \<le> c \<and> c \<le> 32) \<or> c = 133 \<or> c = 160
     \<or> c = 5760 \<or> (8192 \<le> c \<and> c \<le> 8202) \<or> c = 8232 \<or> c = 8233 \<or> c = 8239
     \<or> c = 8287 \<or> c = 12288)"

definition strip :: "pystr \<Rightarrow> pystr" where
  "strip s = rev (dropWhile is_space (rev (dropWhile is_space s)))"

section \<open>Normalizer\<close>

text \<open>\<open>re.sub(r'[\(\)\[\]\{\}]', '', s)\<close>: every bracket character is deleted.\<close>

definition is_bracket :: "nat \<Rightarrow> bool" where
  "is_bracket c = (c = LPAREN \<or> c = RPAREN \<or> c = LBRACK \<or> c = RBRACK \<or> c = LBRACE \<or> c = RBRACE)"

definition sub_brackets :: "pystr \<Rightarrow> pystr" where
  "sub_brackets s = filter (\<lambda>c. \<not> is_bracket c) s"

text \<open>
  \<open>re.sub(r'\s*,\s*', ', ', s)\<close>: scanning from the left, a match starts at the first
  position whose (greedy, possibly empty) run of whitespace is followed by a comma; it
  extends over the whitespace after the comma; the search resumes after the match. A
  position where no match starts is copied.
\<close>

function sub_comma :: "pystr \<Rightarrow> pystr" where
  "sub_comma [] = []"
| "sub_comma (c # cs) =
     (case dropWhile is_space (c # cs) of
        [] \<Rightarrow> c # sub_comma cs
      | d # ds \<Rightarrow> if d = COMMA then [COMMA, SPACE] @ sub_comma (dropWhile is_space ds)
                 else c # sub_comma cs)"
  by pat_completeness auto
termination
proof (relation "measure length")
  show "wf (measure length)" by simp
next
  fix c :: nat and cs d ds
  assume "dropWhile is_space (c # cs) = d # ds"
  then have "length (d # ds) \<le> length (c # cs)"
    by (metis length_dropWhile_le)
  moreover have "length (dropWhile is_space ds) \<le> length ds"
    by (rule length_dropWhile_le)
  ultimately show "(dropWhile is_space ds, c # cs) \<in> measure length" by simp
qed simp_all

text \<open>
  \<open>re.sub(r'\([^)]*\)', '', s)\<close>: a match starts at a \<open>(\<close> that has a \<open>)\<close> somewhere
  after it and ends at the first such \<open>)\<close>.
\<close>

function sub_paren :: "pystr \<Rightarrow> pystr" where
  "sub_paren [] = []"
| "sub_paren (c # cs) =
     (if c = LPAREN \<and> RPAREN \<in> set cs
      then sub_paren (tl (dropWhile (\<lambda>x. x \<noteq> RPAREN) cs))
      else c # sub_paren cs)"
  by pat_completeness auto
termination
proof (relation "measure length")
  show "wf (measure length)" by simp
next
  fix c :: nat and cs
  have "length (dropWhile (\<lambda>x. x \<noteq> RPAREN) cs) \<le> length cs"
    by (rule length_dropWhile_le)
  then have "length (tl (dropWhile (\<lambda>x. x \<noteq> RPAREN) cs)) \<le> length cs"
    by simp
  then show "(tl (dropWhile (\<lambda>x. x \<noteq> RPAREN) cs), c # cs) \<in> measure length" by simp
qed simp_all

text \<open>\<open>re.sub(r'\s+', ' ', s)\<close>: every maximal run of whitespace becomes one space.\<close>

function sub_spaces :: "pystr \<Rightarrow> pystr" where
  "sub_spaces [] = []"
| "sub_spaces (c # cs) =
     (if is_space c then SPACE # sub_spaces (dropWhile is_space cs)
      else c # sub_spaces cs)"
  by pat_completeness auto
termination
proof (relation "measure length")
  show "wf (measure length)" by simp
next
  fix c :: nat and cs
  have "length (dropWhile is_space cs) \<le> length cs" by (rule length_dropWhile_le)
  then show "(dropWhile is_space cs, c # cs) \<in> measure length" by simp
qed simp_all

definition normalize_triplet :: "pystr \<Rightarrow> pystr" where
  "normalize_triplet triplet_str =
     (let normalized = sub_brackets triplet_str;
          normalized = sub_comma normalized;
          normalized = sub_paren normalized;
          normalized = sub_spaces normalized
      in strip normalized)"

text \<open>The normalizer with its third substitution left out.\<close>

definition normalize_triplet_no_step3 :: "pystr \<Rightarrow> pystr" where
  "normalize_triplet_no_step3 triplet_str =
     (let normalized = sub_brackets triplet_str;
          normalized = sub_comma normalized;
          normalized = sub_spaces normalized
      in strip normalized)"

section \<open>Similarity matcher\<close>

subsection \<open>The sequence matcher of the standard library\<close>

text \<open>
  \<open>difflib.SequenceMatcher(None, a, b).ratio()\<close> is code of the Python standard library,
  not of this repository; it is transcribed here from \<open>difflib.py\<close>
  (\<open>__chain_b\<close>, \<open>find_longest_match\<close>, \<open>get_matching_blocks\<close>, \<open>ratio\<close>) for
  \<open>isjunk = None\<close> and \<open>autojunk = True\<close>, the arguments the matcher passes.

  \<open>b2j\<close> maps an element to the ascending list of its positions in \<open>b\<close>; when \<open>b\<close> has at
  least 200 elements, an element occurring more than \<open>len(b) // 100 + 1\<close> times is
  "popular" and loses its entry.
\<close>

definition b2j :: "pystr \<Rightarrow> nat \<Rightarrow> nat list" where
  "b2j b elt =
     (let indices = filter (\<lambda>j. b ! j = elt) [0..<length b];
          n = length b
      in if 200 \<le> n \<and> n div 100 + 1 < length indices then [] else indices)"

text \<open>
  The inner loop of \<open>find_longest_match\<close> over the positions \<open>j\<close> of \<open>a[i]\<close> in \<open>b\<close>:
  \<open>continue\<close> below \<open>blo\<close>, \<open>break\<close> from \<open>bhi\<close> on. \<open>j2len.get(j-1, 0)\<close> is 0 for
  \<open>j = 0\<close>, the key \<open>-1\<close> never being stored. The state is the best match so far
  \<open>(besti, bestj, bestsize)\<close> and \<open>newj2len\<close>.
\<close>

fun flm_row :: "nat \<Rightarrow> nat \<Rightarrow> nat \<Rightarrow> (nat \<rightharpoonup> nat) \<Rightarrow> nat list
    \<Rightarrow> (nat \<times> nat \<times> nat) \<times> (nat \<rightharpoonup> nat) \<Rightarrow> (nat \<times> nat \<times> nat) \<times> (nat \<rightharpoonup> nat)" where
  "flm_row i blo bhi j2len [] st = st"
| "flm_row i blo bhi j2len (j # js) ((besti, bestj, bestsize), newj2len) =
     (if j < blo then flm_row i blo bhi j2len js ((besti, bestj, bestsize), newj2len)
      else if bhi \<le> j then ((besti, bestj, bestsize), newj2len)
      else
        let k = (if j = 0 then 0 else (case j2len (j - 1) of None \<Rightarrow> 0 | Some v \<Rightarrow> v)) + 1
        in flm_row i blo bhi j2len js
             ((if bestsize < k then (i + 1 - k, j + 1 - k, k) else (besti, bestj, bestsize)),
              newj2len(j \<mapsto> k)))"

text \<open>The outer loop \<open>for i in range(alo, ahi)\<close>; \<open>j2len\<close> is replaced by \<open>newj2len\<close> after each row.\<close>

fun flm_rows :: "pystr \<Rightarrow> pystr \<Rightarrow> nat \<Rightarrow> nat \<Rightarrow> nat list
    \<Rightarrow> (nat \<times> nat \<times> nat) \<times> (nat \<rightharpoonup> nat) \<Rightarrow> (nat \<times> nat \<times> nat) \<times> (nat \<rightharpoonup> nat)" where
  "flm_rows a b blo bhi [] st = st"
| "flm_rows a b blo bhi (i # is) (best, j2len) =
     flm_rows a b blo bhi is (flm_row i blo bhi j2len (b2j b (a ! i)) (best, Map.empty))"

text \<open>
  The two loops that extend the best match by equal elements at each end. With
  \<open>isjunk = None\<close> the junk set is empty, so \<open>not isbjunk(...)\<close> always holds and the two
  further loops over junk elements never run.
\<close>

fun extend_left :: "pystr \<Rightarrow> pystr \<Rightarrow> nat \<Rightarrow> nat \<Rightarrow> nat \<Rightarrow> nat \<Rightarrow> nat \<Rightarrow> nat \<times> nat \<times> nat" where
  "extend_left a b alo blo 0 bestj bestsize = (0, bestj, bestsize)"
| "extend_left a b alo blo (Suc i) bestj bestsize =
     (if alo < Suc i \<and> blo < bestj \<and> a ! i = b ! (bestj - 1)
      then extend_left a b alo blo i (bestj - 1) (bestsize + 1)
      else (Suc i, bestj, bestsize))"

function extend_right :: "pystr \<Rightarrow> pystr \<Rightarrow> nat \<Rightarrow> nat \<Rightarrow> nat \<Rightarrow> nat \<Rightarrow> nat \<Rightarrow> nat \<times> nat \<times> nat" where
  "extend_right a b ahi bhi besti bestj bestsize =
     (if besti + bestsize < ahi \<and> bestj + bestsize < bhi
         \<and> a ! (besti + bestsize) = b ! (bestj + bestsize)
      then extend_right a b ahi bhi besti bestj (bestsize + 1)
      else (besti, bestj, bestsize))"
  by pat_completeness auto
termination
  by (relation "measure (\<lambda>(a, b, ahi, bhi, besti, bestj, bestsize). ahi - (besti + bestsize))") auto

definition find_longest_match :: "pystr \<Rightarrow> pystr \<Rightarrow> nat \<Rightarrow> nat \<Rightarrow> nat \<Rightarrow> nat \<Rightarrow> nat \<times> nat \<times> nat" where
  "find_longest_match a b alo ahi blo bhi =
     (case fst (flm_rows a b blo bhi [alo..<ahi] ((alo, blo, 0), Map.empty)) of
        (besti, bestj, bestsize) \<Rightarrow>
          (case extend_left a b alo blo besti bestj bestsize of
             (besti, bestj, bestsize) \<Rightarrow> extend_right a b ahi bhi besti bestj bestsize))"

text \<open>
  The match found lies inside \<open>a[alo:ahi]\<close>. This is what makes the block decomposition
  below terminate.
\<close>

definition flm_inv :: "nat \<Rightarrow> nat \<Rightarrow> (nat \<times> nat \<times> nat) \<times> (nat \<rightharpoonup> nat) \<Rightarrow> bool" where
  "flm_inv alo n st =
     (case st of ((besti, bestj, bestsize), m) \<Rightarrow>
        alo \<le> besti \<and> besti + bestsize \<le> n \<and> (\<forall>j v. m j = Some v \<longrightarrow> v \<le> n - alo))"

lemma flm_row_inv:
  assumes "alo \<le> i" and "\<forall>j v. j2len j = Some v \<longrightarrow> v \<le> i - alo"
  shows "flm_inv alo (Suc i) st \<Longrightarrow> flm_inv alo (Suc i) (flm_row i blo bhi j2len js st)"
proof (induction js arbitrary: st)
  case Nil
  then show ?case by simp
next
  case (Cons j js)
  obtain besti bestj bestsize newj2len where st: "st = ((besti, bestj, bestsize), newj2len)"
    by (metis prod_cases3 surj_pair)
  define k where "k = (if j = 0 then 0 else (case j2len (j - 1) of None \<Rightarrow> 0 | Some v \<Rightarrow> v)) + 1"
  define st' where "st' =
    ((if bestsize < k then (i + 1 - k, j + 1 - k, k) else (besti, bestj, bestsize)), newj2len(j \<mapsto> k))"
  have "(case j2len (j - 1) of None \<Rightarrow> 0 | Some v \<Rightarrow> v) \<le> i - alo"
    using assms(2) by (cases "j2len (j - 1)") simp_all
  then have k: "k \<le> Suc i - alo" "0 < k"
    using assms(1) by (auto simp: k_def)
  have step: "flm_inv alo (Suc i) st'"
    using Cons.prems assms(1) k by (auto simp: flm_inv_def st st'_def)
  consider "j < blo" | "\<not> j < blo" "bhi \<le> j" | "\<not> j < blo" "\<not> bhi \<le> j" by blast
  then show ?case
  proof cases
    case 1
    then show ?thesis using Cons.IH [OF Cons.prems] by (simp add: st)
  next
    case 2
    then show ?thesis using Cons.prems by (simp add: st)
  next
    case 3
    then have "flm_row i blo bhi j2len (j # js) st = flm_row i blo bhi j2len js st'"
      by (simp add: st st'_def k_def Let_def)
    then show ?thesis using Cons.IH [OF step] by simp
  qed
qed

lemma flm_rows_inv:
  assumes "alo \<le> i0" and "flm_inv alo i0 st"
  shows "flm_inv alo (max i0 ahi) (flm_rows a b blo bhi [i0..<ahi] st)"
  using assms
proof (induction "ahi - i0" arbitrary: i0 st)
  case 0
  then show ?case by (simp add: max_def)
next
  case (Suc n)
  obtain best j2len where st: "st = (best, j2len)" by (cases st)
  have lt: "i0 < ahi" using Suc.hyps(2) by simp
  have bound: "\<forall>j v. j2len j = Some v \<longrightarrow> v \<le> i0 - alo"
    using Suc.prems(2) by (auto simp: st flm_inv_def)
  have start: "flm_inv alo (Suc i0) (best, Map.empty)"
    using Suc.prems(2) by (auto simp: st flm_inv_def)
  have row: "flm_inv alo (Suc i0) (flm_row i0 blo bhi j2len (b2j b (a ! i0)) (best, Map.empty))"
    by (rule flm_row_inv [OF Suc.prems(1) bound start])
  have "flm_inv alo (max (Suc i0) ahi)
      (flm_rows a b blo bhi [Suc i0..<ahi] (flm_row i0 blo bhi j2len (b2j b (a ! i0)) (best, Map.empty)))"
    using Suc.hyps(1)[of "Suc i0", OF _ _ row] Suc.hyps(2) Suc.prems(1) by simp
  then show ?case
    using lt by (simp add: st upt_conv_Cons max_def)
qed

lemma extend_left_bounds:
  "alo \<le> besti \<Longrightarrow> extend_left a b alo blo besti bestj bestsize = (i, j, k)
    \<Longrightarrow> alo \<le> i \<and> i + k = besti + bestsize \<and> bestsize \<le> k"
  by (induction a b alo blo besti bestj bestsize rule: extend_left.induct)
     (fastforce split: if_splits)+

lemma extend_right_bounds:
  "besti + bestsize \<le> ahi \<Longrightarrow> extend_right a b ahi bhi besti bestj bestsize = (i, j, k)
    \<Longrightarrow> i = besti \<and> i + k \<le> ahi \<and> bestsize \<le> k"
proof (induction a b ahi bhi besti bestj bestsize rule: extend_right.induct)
  case (1 a b ahi bhi besti bestj bestsize)
  show ?case
  proof (cases "besti + bestsize < ahi \<and> bestj + bestsize < bhi
         \<and> a ! (besti + bestsize) = b ! (bestj + bestsize)")
    case True
    then have "extend_right a b ahi bhi besti bestj (bestsize + 1) = (i, j, k)"
      using "1.prems"(2) by (subst (asm) extend_right.simps) simp
    then show ?thesis using "1.IH"[OF True] True by simp
  next
    case False
    then show ?thesis using "1.prems" by (subst (asm) extend_right.simps) auto
  qed
qed

lemma find_longest_match_bounds:
  assumes "find_longest_match a b alo ahi blo bhi = (i, j, k)" and "k \<noteq> 0"
  shows "alo \<le> i \<and> i + k \<le> ahi"
proof -
  obtain bi bj bs m where rows:
    "flm_rows a b blo bhi [alo..<ahi] ((alo, blo, 0), Map.empty) = ((bi, bj, bs), m)"
    by (metis prod_cases3 surj_pair)
  obtain li lj lk where left: "extend_left a b alo blo bi bj bs = (li, lj, lk)"
    by (metis prod_cases3)
  have right: "extend_right a b ahi bhi li lj lk = (i, j, k)"
    using assms(1) by (simp add: find_longest_match_def rows left)
  have "flm_inv alo alo ((alo, blo, 0), Map.empty)" by (simp add: flm_inv_def)
  from flm_rows_inv [OF le_refl this, of ahi a b blo bhi]
  have inv: "alo \<le> bi \<and> bi + bs \<le> max alo ahi" by (simp add: rows flm_inv_def)
  have l: "alo \<le> li \<and> li + lk = bi + bs"
    using extend_left_bounds [OF _ left] inv by simp
  show ?thesis
  proof (cases "alo \<le> ahi")
    case True
    then have "li + lk \<le> ahi" using inv l by (simp add: max_def)
    from extend_right_bounds [OF this right] l show ?thesis by simp
  next
    case False
    then have "[alo..<ahi] = []" by simp
    then have "bi = alo \<and> bs = 0" using rows by (simp del: upt_eq_Nil_conv)
    then have "li = alo \<and> lk = 0" using left by (cases alo) (auto split: if_splits)
    then have "k = 0" using right False by (subst (asm) extend_right.simps) simp
    then show ?thesis using assms(2) by simp
  qed
qed

text \<open>
  \<open>get_matching_blocks\<close> takes regions \<open>(alo, ahi, blo, bhi)\<close> from a work list, starting
  with the whole of \<open>a\<close> and \<open>b\<close>; a region with a non-empty longest match contributes that
  block and puts the regions to its left and to its right on the work list when both sides
  of them are non-empty. The blocks are then sorted. Here the work list is the recursion
  and the blocks come out in sorted order. (The final merging of adjacent blocks and the
  sentinel of size 0 do not change the sum of the sizes, which is all \<open>ratio\<close> reads.)
\<close>

function matching_blocks :: "pystr \<Rightarrow> pystr \<Rightarrow> nat \<Rightarrow> nat \<Rightarrow> nat \<Rightarrow> nat \<Rightarrow> (nat \<times> nat \<times> nat) list" where
  "matching_blocks a b alo ahi blo bhi =
     (case find_longest_match a b alo ahi blo bhi of
        (i, j, k) \<Rightarrow>
          if k \<noteq> 0
          then (if alo < i \<and> blo < j then matching_blocks a b alo i blo j else [])
               @ [(i, j, k)]
               @ (if i + k < ahi \<and> j + k < bhi then matching_blocks a b (i + k) ahi (j + k) bhi else [])
          else [])"
  by pat_completeness auto
termination
proof (relation "measure (\<lambda>(a, b, alo, ahi, blo, bhi). ahi - alo)")
  show "wf (measure (\<lambda>(a, b, alo, ahi, blo, bhi). ahi - alo))" by simp
next
  fix a b :: pystr and alo ahi blo bhi x i y j k
  assume "(i, y) = find_longest_match a b alo ahi blo bhi" "(j, k) = y"
    "k \<noteq> 0" "alo < i \<and> blo < j"
  then have "find_longest_match a b alo ahi blo bhi = (i, j, k)" "k \<noteq> 0" "alo < i" by auto
  then show "((a, b, alo, i, blo, j), (a, b, alo, ahi, blo, bhi))
      \<in> measure (\<lambda>(a, b, alo, ahi, blo, bhi). ahi - alo)"
    using find_longest_match_bounds by fastforce
next
  fix a b :: pystr and alo ahi blo bhi x i y j k
  assume "(i, y) = find_longest_match a b alo ahi blo bhi" "(j, k) = y"
    "k \<noteq> 0" "i + k < ahi \<and> j + k < bhi"
  then have "find_longest_match a b alo ahi blo bhi = (i, j, k)" "k \<noteq> 0" "i + k < ahi" by auto
  then show "((a, b, i + k, ahi, j + k, bhi), (a, b, alo, ahi, blo, bhi))
      \<in> measure (\<lambda>(a, b, alo, ahi, blo, bhi). ahi - alo)"
    using find_longest_match_bounds by fastforce
qed

text \<open>
  \<open>ratio()\<close> is \<open>2.0 * matches / length if length else 1.0\<close> with \<open>matches\<close> the sum of
  the block sizes and \<open>length = len(a) + len(b)\<close>. The quotient is kept exact, as a
  rational number: the rounding of the floating-point division is not modelled.
\<close>

definition seq_ratio :: "pystr \<Rightarrow> pystr \<Rightarrow> rat" where
  "seq_ratio a b =
     (let matches = sum_list (map (\<lambda>(i, j, k). k) (matching_blocks a b 0 (length a) 0 (length b)));
          len = length a + length b
      in if len \<noteq> 0 then 2 * of_nat matches / of_nat len else 1)"

subsection \<open>Entities\<close>

text \<open>\<open>entity.split(':', 1)[1] if ':' in entity else entity\<close>: what follows the first colon.\<close>

definition entity_content :: "pystr \<Rightarrow> pystr" where
  "entity_content entity =
     (if COLON \<in> set entity then tl (dropWhile (\<lambda>c. c \<noteq> COLON) entity) else entity)"

text \<open>The operator \<open>in\<close> on two strings: \<open>x in y\<close> holds when \<open>x\<close> starts at some position of \<open>y\<close>.\<close>

fun py_in :: "pystr \<Rightarrow> pystr \<Rightarrow> bool" where
  "py_in x [] = (x = [])"
| "py_in x (c # cs) = (prefix x (c # cs) \<or> py_in x cs)"

text \<open>
  The threshold is a floating-point number in the source; it is a rational number here,
  compared with the exact ratio.
\<close>

definition is_similar_entity :: "pystr \<Rightarrow> pystr \<Rightarrow> rat \<Rightarrow> bool" where
  "is_similar_entity entity1 entity2 threshold =
     (if entity1 = entity2 then True
      else
        let content1 = entity_content entity1;
            content2 = entity_content entity2;
            similarity = seq_ratio content1 content2
        in if py_in content1 content2 \<or> py_in content2 content1 then True
           else threshold \<le> similarity)"

definition DEFAULT_THRESHOLD :: rat where
  "DEFAULT_THRESHOLD = 8 / 10"

definition UNKNOWN_TYPE :: pystr where
  "UNKNOWN_TYPE = [26410, 30693, 31867, 22411]"

definition extract_entity_type :: "pystr \<Rightarrow> pystr" where
  "extract_entity_type entity =
     (if COLON \<in> set entity then takeWhile (\<lambda>c. c \<noteq> COLON) entity else UNKNOWN_TYPE)"

definition extract_relation_type :: "pystr \<Rightarrow> pystr" where
  "extract_relation_type relation = relation"

section \<open>Deduplicator\<close>

text \<open>
  The inner loop leaves at the first accepted entity similar to the current one; the
  current entity is appended when there is none.
\<close>

fun dedup_loop :: "rat \<Rightarrow> pystr list \<Rightarrow> pystr list \<Rightarrow> pystr list" where
  "dedup_loop threshold [] unique_entities = unique_entities"
| "dedup_loop threshold (entity # entities) unique_entities =
     dedup_loop threshold entities
       (case find (\<lambda>unique_entity. is_similar_entity entity unique_entity threshold) unique_entities of
          Some found_similar \<Rightarrow> unique_entities
        | None \<Rightarrow> unique_entities @ [entity])"

definition deduplicate_entities :: "pystr list \<Rightarrow> rat \<Rightarrow> pystr list" where
  "deduplicate_entities entities threshold = dedup_loop threshold entities []"

section \<open>Metric calculator\<close>

subsection \<open>Division and the three ratios\<close>

datatype error = ZeroDivisionError

definition truediv :: "rat \<Rightarrow> rat \<Rightarrow> error + rat" where
  "truediv x y = (if y = 0 then Inl ZeroDivisionError else Inr (x / y))"

definition then_do :: "error + 'a \<Rightarrow> ('a \<Rightarrow> error + 'b) \<Rightarrow> error + 'b" where
  "then_do r f = (case r of Inl e \<Rightarrow> Inl e | Inr v \<Rightarrow> f v)"

text \<open>
  The three lines every calculator and the aggregator end with:
  \<^verbatim>\<open>precision = tp / (tp + fp) if (tp + fp) > 0 else 0\<close>,
  \<^verbatim>\<open>recall = tp / (tp + fn) if (tp + fn) > 0 else 0\<close>,
  \<^verbatim>\<open>f1 = 2 * precision * recall / (precision + recall) if (precision + recall) > 0 else 0\<close>.
\<close>

definition ratios :: "nat \<Rightarrow> nat \<Rightarrow> nat \<Rightarrow> error + (rat \<times> rat \<times> rat)" where
  "ratios n_tp n_fp n_fn =
     then_do (if 0 < n_tp + n_fp then truediv (of_nat n_tp) (of_nat (n_tp + n_fp)) else Inr 0)
       (\<lambda>p. then_do (if 0 < n_tp + n_fn then truediv (of_nat n_tp) (of_nat (n_tp + n_fn)) else Inr 0)
       (\<lambda>r. then_do (if 0 < p + r then truediv (2 * p * r) (p + r) else Inr 0)
       (\<lambda>f. Inr (p, r, f))))"

subsection \<open>The matching loop\<close>

text \<open>
  \<open>for j, pred in enumerate(pred_remaining): if ...: ...; pred_remaining.pop(j); break\<close>:
  the index of the first element of the working copy that satisfies the predicate, and
  its removal.
\<close>

fun first_match :: "('a \<Rightarrow> bool) \<Rightarrow> 'a list \<Rightarrow> nat \<Rightarrow> nat option" where
  "first_match P [] j = None"
| "first_match P (x # xs) j = (if P x then Some j else first_match P xs (Suc j))"

definition pop :: "nat \<Rightarrow> 'a list \<Rightarrow> 'a list" where
  "pop j xs = take j xs @ drop (Suc j) xs"

subsection \<open>Triples\<close>

type_synonym triplet = "pystr \<times> pystr \<times> pystr"

text \<open>The f-string \<^verbatim>\<open>f"({s}, {p}, {o})"\<close>.\<close>

definition fmt_triplet :: "triplet \<Rightarrow> pystr" where
  "fmt_triplet t =
     (case t of (s, p, o') \<Rightarrow> [LPAREN] @ s @ [COMMA, SPACE] @ p @ [COMMA, SPACE] @ o' @ [RPAREN])"

record 'a metrics =
  tp :: nat
  fp :: nat
  fn :: nat
  precision :: rat
  recall :: rat
  f1 :: rat
  unmatched_gold :: "'a list"
  unmatched_pred :: "'a list"

record triplet_state =
  m_tp :: nat
  m_fn :: nat
  m_unmatched_gold :: "triplet list"
  m_pred_remaining :: "pystr list"

text \<open>The loop over \<open>enumerate(gold_normalized)\<close>.\<close>

fun triplet_loop :: "triplet list \<Rightarrow> (nat \<times> pystr) list \<Rightarrow> triplet_state \<Rightarrow> triplet_state" where
  "triplet_loop gold_triplets [] st = st"
| "triplet_loop gold_triplets ((i, gold_triplet) # rest) st =
     triplet_loop gold_triplets rest
       (case first_match (\<lambda>pred_triplet. gold_triplet = pred_triplet) (m_pred_remaining st) 0 of
          Some j \<Rightarrow> st\<lparr>m_tp := m_tp st + 1, m_pred_remaining := pop j (m_pred_remaining st)\<rparr>
        | None \<Rightarrow> st\<lparr>m_fn := m_fn st + 1,
                      m_unmatched_gold := m_unmatched_gold st @ [gold_triplets ! i]\<rparr>)"

text \<open>
  The loop that looks each leftover normalized string up in the original predictions and
  stops at the first triple with that normalized form.
\<close>

fun recover_fp :: "triplet list \<Rightarrow> pystr list \<Rightarrow> triplet list \<Rightarrow> triplet list" where
  "recover_fp pred_triplets [] unmatched = unmatched"
| "recover_fp pred_triplets (pred_triplet # rest) unmatched =
     recover_fp pred_triplets rest
       (case find (\<lambda>triplet. normalize_triplet (fmt_triplet triplet) = pred_triplet) pred_triplets of
          Some triplet \<Rightarrow> unmatched @ [triplet]
        | None \<Rightarrow> unmatched)"

definition calculate_metrics :: "triplet list \<Rightarrow> triplet list \<Rightarrow> error + triplet metrics" where
  "calculate_metrics gold_triplets pred_triplets =
     (let gold_normalized = map (\<lambda>t. normalize_triplet (fmt_triplet t)) gold_triplets;
          pred_normalized = map (\<lambda>t. normalize_triplet (fmt_triplet t)) pred_triplets;
          st = triplet_loop gold_triplets (List.enumerate 0 gold_normalized)
                 \<lparr>m_tp = 0, m_fn = 0, m_unmatched_gold = [], m_pred_remaining = pred_normalized\<rparr>;
          n_fp = length (m_pred_remaining st);
          unmatched_pred_triplets = recover_fp pred_triplets (m_pred_remaining st) []
      in then_do (ratios (m_tp st) n_fp (m_fn st))
           (\<lambda>(p, r, f). Inr \<lparr>tp = m_tp st, fp = n_fp, fn = m_fn st,
                              precision = p, recall = r, f1 = f,
                              unmatched_gold = m_unmatched_gold st,
                              unmatched_pred = unmatched_pred_triplets\<rparr>))"

subsection \<open>Entities and relations, with per-type statistics\<close>

text \<open>
  \<open>defaultdict(lambda: {'tp': 0, 'fp': 0, 'fn': 0})\<close>: a table from type labels to
  counters, in insertion order, where reading an absent label inserts zeros.
\<close>

record counts =
  c_tp :: nat
  c_fp :: nat
  c_fn :: nat

definition zero_counts :: counts where
  "zero_counts = \<lparr>c_tp = 0, c_fp = 0, c_fn = 0\<rparr>"

fun bump :: "(counts \<Rightarrow> counts) \<Rightarrow> pystr \<Rightarrow> (pystr \<times> counts) list \<Rightarrow> (pystr \<times> counts) list" where
  "bump f key [] = [(key, f zero_counts)]"
| "bump f key ((k, c) # rest) =
     (if k = key then (k, f c) # rest else (k, c) # bump f key rest)"

definition inc_tp :: "counts \<Rightarrow> counts" where "inc_tp c = c\<lparr>c_tp := c_tp c + 1\<rparr>"
definition inc_fp :: "counts \<Rightarrow> counts" where "inc_fp c = c\<lparr>c_fp := c_fp c + 1\<rparr>"
definition inc_fn :: "counts \<Rightarrow> counts" where "inc_fn c = c\<lparr>c_fn := c_fn c + 1\<rparr>"

text \<open>The counters of a label; an absent label has counted nothing.\<close>

definition bucket :: "(pystr \<times> counts) list \<Rightarrow> pystr \<Rightarrow> counts" where
  "bucket stats key = (case map_of stats key of None \<Rightarrow> zero_counts | Some c \<Rightarrow> c)"

record 'a typed_state =
  s_tp :: nat
  s_fn :: nat
  s_unmatched_gold :: "'a list"
  s_pred_remaining :: "'a list"
  s_type_stats :: "(pystr \<times> counts) list"

text \<open>
  \<open>calculate_entity_metrics\<close> and \<open>calculate_relation_metrics\<close> are the same text up to
  the predicate that compares a gold item with a predicted one and the function that
  gives the type of an item. This is their loop over the gold items.
\<close>

fun typed_loop :: "('a \<Rightarrow> 'a \<Rightarrow> bool) \<Rightarrow> ('a \<Rightarrow> pystr) \<Rightarrow> 'a list \<Rightarrow> 'a typed_state \<Rightarrow> 'a typed_state" where
  "typed_loop same type_of [] st = st"
| "typed_loop same type_of (gold # rest) st =
     typed_loop same type_of rest
       (case first_match (\<lambda>pred. same gold pred) (s_pred_remaining st) 0 of
          Some i \<Rightarrow> st\<lparr>s_tp := s_tp st + 1,
                        s_pred_remaining := pop i (s_pred_remaining st),
                        s_type_stats := bump inc_tp (type_of gold) (s_type_stats st)\<rparr>
        | None \<Rightarrow> st\<lparr>s_fn := s_fn st + 1,
                      s_unmatched_gold := s_unmatched_gold st @ [gold],
                      s_type_stats := bump inc_fn (type_of gold) (s_type_stats st)\<rparr>)"

text \<open>The loop that counts each leftover predicted item as a false positive of its type.\<close>

fun fp_loop :: "('a \<Rightarrow> pystr) \<Rightarrow> 'a list \<Rightarrow> (pystr \<times> counts) list \<Rightarrow> (pystr \<times> counts) list" where
  "fp_loop type_of [] stats = stats"
| "fp_loop type_of (pred # rest) stats = fp_loop type_of rest (bump inc_fp (type_of pred) stats)"

record type_stat =
  t_tp :: nat
  t_fp :: nat
  t_fn :: nat
  t_precision :: rat
  t_recall :: rat
  t_f1 :: rat

text \<open>The loop over the items of the table that adds the three ratios to each entry.\<close>

fun type_metrics :: "(pystr \<times> counts) list \<Rightarrow> error + (pystr \<times> type_stat) list" where
  "type_metrics [] = Inr []"
| "type_metrics ((ty, c) # rest) =
     then_do (ratios (c_tp c) (c_fp c) (c_fn c))
       (\<lambda>(p, r, f). then_do (type_metrics rest)
       (\<lambda>rest'. Inr ((ty, \<lparr>t_tp = c_tp c, t_fp = c_fp c, t_fn = c_fn c,
                              t_precision = p, t_recall = r, t_f1 = f\<rparr>) # rest')))"

record 'a typed_metrics = "'a metrics" +
  type_stats :: "(pystr \<times> type_stat) list"

definition calculate_typed_metrics ::
    "('a \<Rightarrow> 'a \<Rightarrow> bool) \<Rightarrow> ('a \<Rightarrow> pystr) \<Rightarrow> 'a list \<Rightarrow> 'a list \<Rightarrow> error + 'a typed_metrics" where
  "calculate_typed_metrics same type_of gold pred =
     (let st = typed_loop same type_of gold
                 \<lparr>s_tp = 0, s_fn = 0, s_unmatched_gold = [], s_pred_remaining = pred,
                  s_type_stats = []\<rparr>;
          n_fp = length (s_pred_remaining st);
          stats = fp_loop type_of (s_pred_remaining st) (s_type_stats st)
      in then_do (type_metrics stats)
           (\<lambda>stats'. then_do (ratios (s_tp st) n_fp (s_fn st))
           (\<lambda>(p, r, f). Inr \<lparr>tp = s_tp st, fp = n_fp, fn = s_fn st,
                              precision = p, recall = r, f1 = f,
                              unmatched_gold = s_unmatched_gold st,
                              unmatched_pred = s_pred_remaining st,
                              type_stats = stats'\<rparr>)))"

definition calculate_entity_metrics :: "pystr list \<Rightarrow> pystr list \<Rightarrow> error + pystr typed_metrics" where
  "calculate_entity_metrics gold_entities pred_entities =
     calculate_typed_metrics
       (\<lambda>gold_entity pred_entity. is_similar_entity gold_entity pred_entity DEFAULT_THRESHOLD)
       extract_entity_type gold_entities pred_entities"

definition calculate_relation_metrics :: "pystr list \<Rightarrow> pystr list \<Rightarrow> error + pystr typed_metrics" where
  "calculate_relation_metrics gold_relations pred_relations =
     calculate_typed_metrics
       (\<lambda>gold_relation pred_relation. gold_relation = pred_relation)
       extract_relation_type gold_relations pred_relations"

section \<open>Files and the aggregator\<close>

definition extract_entities_and_relations :: "triplet list \<Rightarrow> bool \<Rightarrow> pystr list \<times> pystr list" where
  "extract_entities_and_relations triplets deduplicate_entities_flag =
     (let entities = concat (map (\<lambda>(s, p, o'). [s, o']) triplets);
          relations = map (\<lambda>(s, p, o'). p) triplets
      in (if deduplicate_entities_flag then deduplicate_entities entities DEFAULT_THRESHOLD
          else entities,
          relations))"

record file_result =
  fr_gold_triplets :: "triplet list"
  fr_pred_triplets :: "triplet list"
  fr_gold_entities :: "pystr list"
  fr_pred_entities :: "pystr list"
  fr_gold_relations :: "pystr list"
  fr_pred_relations :: "pystr list"
  fr_triplet :: "triplet metrics"
  fr_entity :: "pystr typed_metrics"
  fr_relation :: "pystr typed_metrics"

text \<open>
  \<open>process_file_pair\<close> after the two files have been read and parsed: an exception in
  the body is caught and gives \<open>None\<close>.
\<close>

definition process_file_pair :: "triplet list \<Rightarrow> triplet list \<Rightarrow> file_result option" where
  "process_file_pair gold pred =
     (case calculate_metrics gold pred of
        Inl e \<Rightarrow> None
      | Inr triplet_metrics \<Rightarrow>
          (case (extract_entities_and_relations gold True, extract_entities_and_relations pred True) of
             ((ge, gr), (pe, pr)) \<Rightarrow>
               (case calculate_entity_metrics ge pe of
                  Inl e \<Rightarrow> None
                | Inr entity_metrics \<Rightarrow>
                    (case calculate_relation_metrics gr pr of
                       Inl e \<Rightarrow> None
                     | Inr relation_metrics \<Rightarrow>
                         Some \<lparr>fr_gold_triplets = gold, fr_pred_triplets = pred,
                               fr_gold_entities = ge, fr_pred_entities = pe,
                               fr_gold_relations = gr, fr_pred_relations = pr,
                               fr_triplet = triplet_metrics, fr_entity = entity_metrics,
                               fr_relation = relation_metrics\<rparr>))))"

record overall =
  o_tp :: nat
  o_fp :: nat
  o_fn :: nat
  o_precision :: rat
  o_recall :: rat
  o_f1 :: rat

record corpus_result =
  overall_triplet :: overall
  overall_entity :: overall
  overall_relation :: overall

text \<open>
  The running totals of \<open>process_folders\<close>: a file whose result is \<open>None\<close> is skipped
  (\<open>if metrics:\<close>), the counts of the others are added.
\<close>

fun accumulate :: "file_result option list \<Rightarrow> counts \<times> counts \<times> counts \<Rightarrow> counts \<times> counts \<times> counts" where
  "accumulate [] acc = acc"
| "accumulate (None # rest) acc = accumulate rest acc"
| "accumulate (Some m # rest) (t, e, r) =
     accumulate rest
       (\<lparr>c_tp = c_tp t + tp (fr_triplet m), c_fp = c_fp t + fp (fr_triplet m), c_fn = c_fn t + fn (fr_triplet m)\<rparr>,
        \<lparr>c_tp = c_tp e + tp (fr_entity m), c_fp = c_fp e + fp (fr_entity m), c_fn = c_fn e + fn (fr_entity m)\<rparr>,
        \<lparr>c_tp = c_tp r + tp (fr_relation m), c_fp = c_fp r + fp (fr_relation m), c_fn = c_fn r + fn (fr_relation m)\<rparr>)"

definition overall_of :: "counts \<Rightarrow> error + overall" where
  "overall_of c =
     then_do (ratios (c_tp c) (c_fp c) (c_fn c))
       (\<lambda>(p, r, f). Inr \<lparr>o_tp = c_tp c, o_fp = c_fp c, o_fn = c_fn c,
                          o_precision = p, o_recall = r, o_f1 = f\<rparr>)"

text \<open>
  \<open>process_folders\<close> on the parsed gold and predicted triples of the common files, in the
  sorted order of their names; \<open>None\<close> when there is no common file. The per-type
  tables, the lists of one category's unmatched entities, the printing and the workbook
  are left out.
\<close>

definition process_folders :: "(triplet list \<times> triplet list) list \<Rightarrow> (error + corpus_result) option" where
  "process_folders files =
     (if files = [] then None
      else
        (case accumulate (map (\<lambda>(gold, pred). process_file_pair gold pred) files)
                (zero_counts, zero_counts, zero_counts) of
           (t, e, r) \<Rightarrow>
             Some (then_do (overall_of t) (\<lambda>ot. then_do (overall_of e) (\<lambda>oe. then_do (overall_of r)
               (\<lambda>or. Inr \<lparr>overall_triplet = ot, overall_entity = oe, overall_relation = or\<rparr>))))))"

section \<open>Reference definitions\<close>

text \<open>
  The zero-guarded ratios as the specification writes them: \<open>tp/(tp+x)\<close> when the
  denominator is positive and 0 otherwise, for precision (\<open>x = fp\<close>) and recall
  (\<open>x = fn\<close>); \<open>2PR/(P+R)\<close> when \<open>P+R\<close> is positive and 0 otherwise.
\<close>

definition guarded_ratio :: "nat \<Rightarrow> nat \<Rightarrow> rat" where
  "guarded_ratio n_tp x = (if 0 < n_tp + x then of_nat n_tp / of_nat (n_tp + x) else 0)"

definition guarded_f1 :: "rat \<Rightarrow> rat \<Rightarrow> rat" where
  "guarded_f1 p r = (if 0 < p + r then 2 * p * r / (p + r) else 0)"

definition guarded_stat :: "type_stat \<Rightarrow> bool" where
  "guarded_stat s =
     (t_precision s = guarded_ratio (t_tp s) (t_fp s)
      \<and> t_recall s = guarded_ratio (t_tp s) (t_fn s)
      \<and> t_f1 s = guarded_f1 (t_precision s) (t_recall s))"

text \<open>
  The matching as the specification describes it. The gold items are taken in their
  order; the working copy of the predicted items is scanned from the left; the first item
  that satisfies the predicate is a true positive and is removed from the working copy;
  a gold item for which the working copy has no such item is a false negative and is
  recorded as unmatched. The result is the number of true positives, the number of false
  negatives, the unmatched gold items and what is left of the working copy, whose items
  are the false positives.
\<close>

fun remove_first :: "('a \<Rightarrow> bool) \<Rightarrow> 'a list \<Rightarrow> 'a list" where
  "remove_first P [] = []"
| "remove_first P (x # xs) = (if P x then xs else x # remove_first P xs)"

fun greedy_matching :: "('g \<Rightarrow> 'p \<Rightarrow> bool) \<Rightarrow> 'g list \<Rightarrow> 'p list \<Rightarrow> nat \<times> nat \<times> 'g list \<times> 'p list" where
  "greedy_matching same [] work = (0, 0, [], work)"
| "greedy_matching same (g # gold) work =
     (if list_ex (same g) work
      then (case greedy_matching same gold (remove_first (same g) work) of
              (n_tp, n_fn, unmatched, left) \<Rightarrow> (n_tp + 1, n_fn, unmatched, left))
      else (case greedy_matching same gold work of
              (n_tp, n_fn, unmatched, left) \<Rightarrow> (n_tp, n_fn + 1, g # unmatched, left)))"

text \<open>The counters \<open>(tp, fp, fn)\<close> of a type label in a finished table; zeros for an absent label.\<close>

definition type_bucket :: "(pystr \<times> type_stat) list \<Rightarrow> pystr \<Rightarrow> nat \<times> nat \<times> nat" where
  "type_bucket stats key =
     (case map_of stats key of None \<Rightarrow> (0, 0, 0) | Some s \<Rightarrow> (t_tp s, t_fp s, t_fn s))"

text \<open>The number of items of a list that have a given type.\<close>

definition count_type :: "('a \<Rightarrow> pystr) \<Rightarrow> pystr \<Rightarrow> 'a list \<Rightarrow> nat" where
  "count_type type_of t xs = length (filter (\<lambda>x. type_of x = t) xs)"

text \<open>The sum over the files of a corpus of one count of the per-file results.\<close>

definition summed :: "(file_result \<Rightarrow> nat) \<Rightarrow> (triplet list \<times> triplet list) list \<Rightarrow> nat" where
  "summed sel files =
     sum_list (map (\<lambda>(gold, pred). case process_file_pair gold pred of
                                       None \<Rightarrow> 0 | Some m \<Rightarrow> sel m) files)"

definition guarded_overall :: "overall \<Rightarrow> bool" where
  "guarded_overall v =
     (o_precision v = guarded_ratio (o_tp v) (o_fp v)
      \<and> o_recall v = guarded_ratio (o_tp v) (o_fn v)
      \<and> o_f1 v = guarded_f1 (o_precision v) (o_recall v))"

text \<open>
  The shape of a string after the second and fourth steps of the normalizer. In
  \<open>comma_shaped\<close> strings every comma is followed by exactly one space, and whitespace
  stands before a comma only as that space. \<open>spaced e\<close> strings are moreover free of
  whitespace other than single spaces; with \<open>e\<close> true the last character may be a comma
  (a string whose final space has been stripped).
\<close>

fun comma_shaped :: "pystr \<Rightarrow> bool" where
  "comma_shaped [] = True"
| "comma_shaped [c] = (c \<noteq> COMMA)"
| "comma_shaped (c # d # ds) =
     (if c = COMMA then d = SPACE \<and> (ds = [] \<or> \<not> is_space (hd ds)) \<and> comma_shaped ds
      else if is_space c then d \<noteq> COMMA \<and> comma_shaped (d # ds)
      else comma_shaped (d # ds))"

fun spaced :: "bool \<Rightarrow> pystr \<Rightarrow> bool" where
  "spaced e [] = True"
| "spaced e [c] = (if c = COMMA then e else (\<not> is_space c \<or> c = SPACE))"
| "spaced e (c # d # ds) =
     (if c = COMMA then d = SPACE \<and> (ds = [] \<or> \<not> is_space (hd ds)) \<and> spaced e ds
      else if is_space c then c = SPACE \<and> \<not> is_space d \<and> d \<noteq> COMMA \<and> spaced e (d # ds)
      else spaced e (d # ds))"

text \<open>A final comma gets its space back.\<close>

fun respace :: "pystr \<Rightarrow> pystr" where
  "respace [] = []"
| "respace [c] = (if c = COMMA then [c, SPACE] else [c])"
| "respace (c # d # ds) = c # respace (d # ds)"


text \<open>
  The two entities of the scenario, as code points: the gold entity
  U+4E2D U+6210 U+836F \<open>:\<close> U+9F99 U+80C6 U+6CFB U+809D U+4E38 and the predicted entity,
  the same string followed by U+7247.
\<close>

definition scenario_gold_entity :: pystr where
  "scenario_gold_entity = [20013, 25104, 33647, 58, 40857, 32966, 27899, 32925, 20024]"

definition scenario_pred_entity :: pystr where
  "scenario_pred_entity = [20013, 25104, 33647, 58, 40857, 32966, 27899, 32925, 20024, 29255]"

section \<open>Properties of the normalizer\<close>

lemma sub_paren_no_lparen: "LPAREN \<notin> set s \<Longrightarrow> sub_paren s = s"
  by (induction s) auto

lemma set_sub_comma: "set (sub_comma s) \<subseteq> set s \<union> {COMMA, SPACE}"
proof (induction s rule: sub_comma.induct)
  case 1
  then show ?case by simp
next
  case (2 c cs)
  show ?case
  proof (cases "dropWhile is_space (c # cs)")
    case Nil
    then show ?thesis using 2(1) by auto
  next
    case (Cons d ds)
    have sub: "set (dropWhile is_space ds) \<subseteq> set (c # cs)"
      using set_dropWhileD [of _ is_space ds] set_dropWhileD [of _ is_space "c # cs"] Cons
      by (metis list.set_intros(2) subsetI)
    show ?thesis
    proof (cases "d = COMMA")
      case True
      then show ?thesis using 2(2) [OF Cons True] Cons sub by auto
    next
      case False
      then show ?thesis using 2(3) [OF Cons False] Cons by auto
    qed
  qed
qed

lemma no_bracket_sub_brackets: "c \<in> set (sub_brackets s) \<Longrightarrow> \<not> is_bracket c"
  by (simp add: sub_brackets_def)

lemma no_lparen_before_step3: "LPAREN \<notin> set (sub_comma (sub_brackets s))"
proof
  assume "LPAREN \<in> set (sub_comma (sub_brackets s))"
  then have "LPAREN \<in> set (sub_brackets s) \<union> {COMMA, SPACE}"
    using set_sub_comma by blast
  then have "LPAREN \<in> set (sub_brackets s)"
    by (simp add: LPAREN_def COMMA_def SPACE_def)
  then have "\<not> is_bracket LPAREN" by (rule no_bracket_sub_brackets)
  then show False by (simp add: is_bracket_def)
qed

text \<open>
  C7. The third step of the normalizer never changes anything: when it runs, the first
  step has deleted every bracket and the second has added only commas and spaces, so no
  \<open>(\<close> is left; the normalizer without the third step returns what the normalizer returns,
  on every string.
\<close>

theorem step3_redundant:
  "LPAREN \<notin> set (sub_comma (sub_brackets s))
   \<and> sub_paren (sub_comma (sub_brackets s)) = sub_comma (sub_brackets s)
   \<and> normalize_triplet_no_step3 s = normalize_triplet s"
  using no_lparen_before_step3 [of s]
  by (simp add: normalize_triplet_def normalize_triplet_no_step3_def sub_paren_no_lparen)

section \<open>Properties of the deduplicator\<close>






section \<open>Properties of the similarity matcher\<close>

lemma py_in_sublist: "py_in x y = sublist x y"
  by (induction y) (simp_all add: sublist_Cons_right)

lemma is_similar_entity_contained:
  "sublist (entity_content e1) (entity_content e2) \<or> sublist (entity_content e2) (entity_content e1)
    \<Longrightarrow> is_similar_entity e1 e2 t"
  by (simp add: is_similar_entity_def Let_def py_in_sublist)

lemma is_similar_entity_cases:
  "is_similar_entity e1 e2 t =
     (e1 = e2 \<or> sublist (entity_content e1) (entity_content e2)
      \<or> sublist (entity_content e2) (entity_content e1)
      \<or> t \<le> seq_ratio (entity_content e1) (entity_content e2))"
  by (auto simp: is_similar_entity_def Let_def py_in_sublist)

lemma scenario_contents:
  "entity_content scenario_gold_entity = [40857, 32966, 27899, 32925, 20024]"
  "entity_content scenario_pred_entity = [40857, 32966, 27899, 32925, 20024, 29255]"
  by (simp_all add: entity_content_def scenario_gold_entity_def scenario_pred_entity_def COLON_def)

lemma scenario_contained:
  "sublist (entity_content scenario_gold_entity) (entity_content scenario_pred_entity)"
  by (simp add: scenario_contents py_in_sublist [symmetric])

lemma ratios_one: "ratios (Suc 0) 0 0 = Inr (1, 1, 1)"
  by (simp add: ratios_def then_do_def truediv_def)

text \<open>
  C8. For every two entities and every threshold, the similarity matcher answers true
  when the content of one entity (what follows its first colon, or the whole entity when
  it has no colon) is a contiguous substring of the content of the other, in either
  direction. The gold entity of the scenario and the predicted entity, which is the gold
  one with one more character, are the same entity for the matcher, and the entity
  metrics of the one against the other have tp = 1.
\<close>

theorem is_similar_entity_substring:
  "(sublist (entity_content entity1) (entity_content entity2)
      \<or> sublist (entity_content entity2) (entity_content entity1)
     \<longrightarrow> is_similar_entity entity1 entity2 threshold)
   \<and> is_similar_entity scenario_gold_entity scenario_pred_entity DEFAULT_THRESHOLD
   \<and> (\<exists>r. calculate_entity_metrics [scenario_gold_entity] [scenario_pred_entity] = Inr r
          \<and> tp r = 1 \<and> fp r = 0 \<and> fn r = 0)"
proof -
  have sim: "is_similar_entity scenario_gold_entity scenario_pred_entity DEFAULT_THRESHOLD"
    using scenario_contained by (simp add: is_similar_entity_contained)
  have "\<exists>r. calculate_entity_metrics [scenario_gold_entity] [scenario_pred_entity] = Inr r
          \<and> tp r = 1 \<and> fp r = 0 \<and> fn r = 0"
    using sim
    by (simp add: calculate_entity_metrics_def calculate_typed_metrics_def pop_def
        zero_counts_def inc_tp_def ratios_one then_do_def Let_def)
  then show ?thesis
    using sim is_similar_entity_contained by blast
qed

theorem is_similar_entity_substring_witness:
  "sublist (entity_content scenario_gold_entity) (entity_content scenario_pred_entity)
   \<and> is_similar_entity scenario_gold_entity scenario_pred_entity (99 / 100)"
  using is_similar_entity_substring [of scenario_gold_entity scenario_pred_entity "99 / 100"]
    scenario_contained
  by simp

text \<open>
  C9, as the code has it. The matcher is reflexive for every entity and threshold. It
  gives the same answer in both orders of its two entities when they are equal, when the
  content of one is a substring of the content of the other, or when the sequence matcher
  gives the two contents the same ratio in both orders. The ratio itself depends on the
  order of its arguments, and so does the matcher: with the default threshold it accepts
  \<open>aaaba\<close> against \<open>abaabba\<close> (ratio 5/6) and rejects \<open>abaabba\<close> against \<open>aaaba\<close> (ratio
  1/2).
\<close>

theorem is_similar_entity_asymmetric:
  "is_similar_entity (str ''aaaba'') (str ''abaabba'') DEFAULT_THRESHOLD
   \<and> \<not> is_similar_entity (str ''abaabba'') (str ''aaaba'') DEFAULT_THRESHOLD"
  by code_simp

theorem is_similar_entity_reflexive_symmetric_cases:
  "is_similar_entity x x t
   \<and> (a = b \<or> sublist (entity_content a) (entity_content b)
        \<or> sublist (entity_content b) (entity_content a)
        \<or> seq_ratio (entity_content a) (entity_content b)
            = seq_ratio (entity_content b) (entity_content a)
      \<longrightarrow> is_similar_entity a b t = is_similar_entity b a t)"
proof -
  have "is_similar_entity x x t" by (simp add: is_similar_entity_def)
  moreover have "is_similar_entity a b t = is_similar_entity b a t"
    if "a = b \<or> sublist (entity_content a) (entity_content b)
        \<or> sublist (entity_content b) (entity_content a)
        \<or> seq_ratio (entity_content a) (entity_content b)
            = seq_ratio (entity_content b) (entity_content a)"
    using that by (auto simp: is_similar_entity_cases)
  ultimately show ?thesis by blast
qed

lemma ratio_tide_tied:
  "seq_ratio (entity_content (str ''x:tide'')) (entity_content (str ''y:tied'')) = 3 / 4"
  "seq_ratio (entity_content (str ''y:tied'')) (entity_content (str ''x:tide'')) = 3 / 4"
  by code_simp+

theorem is_similar_entity_reflexive_symmetric_cases_witness:
  "seq_ratio (entity_content (str ''x:tide'')) (entity_content (str ''y:tied''))
     = seq_ratio (entity_content (str ''y:tied'')) (entity_content (str ''x:tide''))
   \<and> is_similar_entity (str ''x:tide'') (str ''y:tied'') DEFAULT_THRESHOLD
     = is_similar_entity (str ''y:tied'') (str ''x:tide'') DEFAULT_THRESHOLD"
  using is_similar_entity_reflexive_symmetric_cases
    [of "[]" DEFAULT_THRESHOLD "str ''x:tide''" "str ''y:tied''"] ratio_tide_tied
  by simp

section \<open>Properties of the metric calculators\<close>

subsection \<open>The ratios never divide by zero\<close>

lemma ratios_guarded:
  "ratios a b c =
     Inr (guarded_ratio a b, guarded_ratio a c,
          guarded_f1 (guarded_ratio a b) (guarded_ratio a c))"
proof -
  have p: "(if 0 < a + b then truediv (of_nat a) (of_nat (a + b)) else Inr 0)
      = Inr (guarded_ratio a b)" for b
    by (simp add: truediv_def guarded_ratio_def)
  have f: "(if 0 < p + r then truediv (2 * p * r) (p + r) else Inr 0) = Inr (guarded_f1 p r)"
    for p r :: rat
    by (simp add: truediv_def guarded_f1_def)
  show ?thesis
    unfolding ratios_def p f by (simp add: then_do_def)
qed

lemma type_metrics_guarded:
  "type_metrics stats =
     Inr (map (\<lambda>(ty, c). (ty, \<lparr>t_tp = c_tp c, t_fp = c_fp c, t_fn = c_fn c,
         t_precision = guarded_ratio (c_tp c) (c_fp c),
         t_recall = guarded_ratio (c_tp c) (c_fn c),
         t_f1 = guarded_f1 (guarded_ratio (c_tp c) (c_fp c)) (guarded_ratio (c_tp c) (c_fn c))\<rparr>))
       stats)"
  by (induction stats) (auto simp: ratios_guarded then_do_def)

lemma calculate_metrics_Inr:
  "calculate_metrics gold pred =
     (let st = triplet_loop gold
                 (List.enumerate 0 (map (\<lambda>t. normalize_triplet (fmt_triplet t)) gold))
                 \<lparr>m_tp = 0, m_fn = 0, m_unmatched_gold = [],
                  m_pred_remaining = map (\<lambda>t. normalize_triplet (fmt_triplet t)) pred\<rparr>;
          n_fp = length (m_pred_remaining st)
      in Inr \<lparr>tp = m_tp st, fp = n_fp, fn = m_fn st,
               precision = guarded_ratio (m_tp st) n_fp,
               recall = guarded_ratio (m_tp st) (m_fn st),
               f1 = guarded_f1 (guarded_ratio (m_tp st) n_fp) (guarded_ratio (m_tp st) (m_fn st)),
               unmatched_gold = m_unmatched_gold st,
               unmatched_pred = recover_fp pred (m_pred_remaining st) []\<rparr>)"
  by (simp add: calculate_metrics_def Let_def ratios_guarded then_do_def)

lemma calculate_typed_metrics_Inr:
  "calculate_typed_metrics same type_of gold pred =
     (let st = typed_loop same type_of gold
                 \<lparr>s_tp = 0, s_fn = 0, s_unmatched_gold = [], s_pred_remaining = pred,
                  s_type_stats = []\<rparr>;
          n_fp = length (s_pred_remaining st);
          stats = fp_loop type_of (s_pred_remaining st) (s_type_stats st)
      in Inr \<lparr>tp = s_tp st, fp = n_fp, fn = s_fn st,
               precision = guarded_ratio (s_tp st) n_fp,
               recall = guarded_ratio (s_tp st) (s_fn st),
               f1 = guarded_f1 (guarded_ratio (s_tp st) n_fp) (guarded_ratio (s_tp st) (s_fn st)),
               unmatched_gold = s_unmatched_gold st,
               unmatched_pred = s_pred_remaining st,
               type_stats = map (\<lambda>(ty, c). (ty, \<lparr>t_tp = c_tp c, t_fp = c_fp c, t_fn = c_fn c,
                 t_precision = guarded_ratio (c_tp c) (c_fp c),
                 t_recall = guarded_ratio (c_tp c) (c_fn c),
                 t_f1 = guarded_f1 (guarded_ratio (c_tp c) (c_fp c))
                          (guarded_ratio (c_tp c) (c_fn c))\<rparr>)) stats\<rparr>)"
  by (simp add: calculate_typed_metrics_def Let_def ratios_guarded type_metrics_guarded then_do_def)

lemma calculate_typed_metrics_guarded:
  "\<exists>r. calculate_typed_metrics same type_of gold pred = Inr r
       \<and> precision r = guarded_ratio (tp r) (fp r)
       \<and> recall r = guarded_ratio (tp r) (fn r)
       \<and> f1 r = guarded_f1 (precision r) (recall r)
       \<and> list_all guarded_stat (map snd (type_stats r))"
  by (simp add: calculate_typed_metrics_Inr Let_def list_all_iff guarded_stat_def split_beta)

text \<open>
  C4. Whatever the gold and predicted lists, each of the three calculators returns a
  result and never raises \<open>ZeroDivisionError\<close>; in the result, and in every entry of the
  per-type table of the entity and relation calculators, precision is tp/(tp+fp) when
  tp+fp > 0 and 0 otherwise, recall is tp/(tp+fn) when tp+fn > 0 and 0 otherwise, and F1
  is 2PR/(P+R) when P+R > 0 and 0 otherwise. For one gold triple and no predicted triple
  the result is tp = 0, fn = 1, fp = 0, precision = 0, recall = 0, F1 = 0.
\<close>

theorem zero_guarded_metrics:
  "(\<exists>r. calculate_metrics gold_triplets pred_triplets = Inr r
       \<and> precision r = guarded_ratio (tp r) (fp r)
       \<and> recall r = guarded_ratio (tp r) (fn r)
       \<and> f1 r = guarded_f1 (precision r) (recall r))
   \<and> (\<exists>r. calculate_entity_metrics gold_entities pred_entities = Inr r
       \<and> precision r = guarded_ratio (tp r) (fp r)
       \<and> recall r = guarded_ratio (tp r) (fn r)
       \<and> f1 r = guarded_f1 (precision r) (recall r)
       \<and> list_all guarded_stat (map snd (type_stats r)))
   \<and> (\<exists>r. calculate_relation_metrics gold_relations pred_relations = Inr r
       \<and> precision r = guarded_ratio (tp r) (fp r)
       \<and> recall r = guarded_ratio (tp r) (fn r)
       \<and> f1 r = guarded_f1 (precision r) (recall r)
       \<and> list_all guarded_stat (map snd (type_stats r)))
   \<and> (\<exists>r. calculate_metrics [t] [] = Inr r
       \<and> tp r = 0 \<and> fn r = 1 \<and> fp r = 0 \<and> precision r = 0 \<and> recall r = 0 \<and> f1 r = 0)"
proof -
  have one: "\<exists>r. calculate_metrics [t] [] = Inr r
       \<and> tp r = 0 \<and> fn r = 1 \<and> fp r = 0 \<and> precision r = 0 \<and> recall r = 0 \<and> f1 r = 0"
    by (simp add: calculate_metrics_Inr Let_def guarded_ratio_def guarded_f1_def)
  have triple: "\<exists>r. calculate_metrics gold_triplets pred_triplets = Inr r
       \<and> precision r = guarded_ratio (tp r) (fp r)
       \<and> recall r = guarded_ratio (tp r) (fn r)
       \<and> f1 r = guarded_f1 (precision r) (recall r)"
    by (simp add: calculate_metrics_Inr Let_def)
  show ?thesis
    using one triple
      calculate_typed_metrics_guarded [of _ extract_entity_type gold_entities pred_entities]
      calculate_typed_metrics_guarded [of _ extract_relation_type gold_relations pred_relations]
    unfolding calculate_entity_metrics_def calculate_relation_metrics_def
    by blast
qed

subsection \<open>The loops are the greedy matching\<close>

lemma first_match_None: "(first_match P xs j = None) = (\<not> list_ex P xs)"
  by (induction xs arbitrary: j) auto

lemma first_match_Some:
  "first_match P xs j = Some i \<Longrightarrow> j \<le> i \<and> pop (i - j) xs = remove_first P xs \<and> list_ex P xs"
proof (induction xs arbitrary: j)
  case Nil
  then show ?case by simp
next
  case (Cons x xs)
  show ?case
  proof (cases "P x")
    case True
    then show ?thesis using Cons.prems by (simp add: pop_def)
  next
    case False
    then have rec: "first_match P xs (Suc j) = Some i" using Cons.prems by simp
    from Cons.IH [OF rec]
    have le: "Suc j \<le> i" and p: "pop (i - Suc j) xs = remove_first P xs" and ex: "list_ex P xs"
      by simp_all
    have "i - j = Suc (i - Suc j)" using le by simp
    then have "pop (i - j) (x # xs) = x # pop (i - Suc j) xs" by (simp add: pop_def)
    then show ?thesis using False le p ex by simp
  qed
qed

lemma first_match_Some0:
  "first_match P xs 0 = Some i \<Longrightarrow> pop i xs = remove_first P xs \<and> list_ex P xs"
  using first_match_Some [of P xs 0 i] by simp

lemma typed_loop_greedy:
  "greedy_matching same gs (s_pred_remaining st) = (a, b, um, left)
   \<Longrightarrow> s_tp (typed_loop same ty gs st) = s_tp st + a
     \<and> s_fn (typed_loop same ty gs st) = s_fn st + b
     \<and> s_unmatched_gold (typed_loop same ty gs st) = s_unmatched_gold st @ um
     \<and> s_pred_remaining (typed_loop same ty gs st) = left"
proof (induction gs arbitrary: st a b um left)
  case Nil
  then show ?case by auto
next
  case (Cons g gs)
  show ?case
  proof (cases "first_match (\<lambda>pred. same g pred) (s_pred_remaining st) 0")
    case None
    then have nex: "\<not> list_ex (same g) (s_pred_remaining st)" by (simp add: first_match_None)
    define st' where "st' = st\<lparr>s_fn := s_fn st + 1,
        s_unmatched_gold := s_unmatched_gold st @ [g],
        s_type_stats := bump inc_fn (ty g) (s_type_stats st)\<rparr>"
    obtain a' b' um' left' where rec:
      "greedy_matching same gs (s_pred_remaining st') = (a', b', um', left')"
      by (metis prod_cases4)
    have res: "a = a'" "b = b' + 1" "um = g # um'" "left = left'"
      using Cons.prems nex rec by (simp_all add: st'_def)
    have step: "typed_loop same ty (g # gs) st = typed_loop same ty gs st'"
      using None by (simp add: st'_def)
    show ?thesis
      using Cons.IH [OF rec] unfolding step res by (simp add: st'_def)
  next
    case (Some i)
    from first_match_Some0 [OF Some]
    have popi: "pop i (s_pred_remaining st) = remove_first (same g) (s_pred_remaining st)"
      and ex: "list_ex (same g) (s_pred_remaining st)" by simp_all
    define st' where "st' = st\<lparr>s_tp := s_tp st + 1,
        s_pred_remaining := pop i (s_pred_remaining st),
        s_type_stats := bump inc_tp (ty g) (s_type_stats st)\<rparr>"
    obtain a' b' um' left' where rec:
      "greedy_matching same gs (s_pred_remaining st') = (a', b', um', left')"
      by (metis prod_cases4)
    have res: "a = a' + 1" "b = b'" "um = um'" "left = left'"
      using Cons.prems ex rec popi by (simp_all add: st'_def)
    have step: "typed_loop same ty (g # gs) st = typed_loop same ty gs st'"
      using Some by (simp add: st'_def)
    show ?thesis
      using Cons.IH [OF rec] unfolding step res by (simp add: st'_def)
  qed
qed

lemma triplet_loop_greedy:
  "greedy_matching (\<lambda>g p. f g = p) (drop k G) (m_pred_remaining st) = (a, b, um, left)
   \<Longrightarrow> m_tp (triplet_loop G (List.enumerate k (map f (drop k G))) st) = m_tp st + a
     \<and> m_fn (triplet_loop G (List.enumerate k (map f (drop k G))) st) = m_fn st + b
     \<and> m_unmatched_gold (triplet_loop G (List.enumerate k (map f (drop k G))) st)
         = m_unmatched_gold st @ um
     \<and> m_pred_remaining (triplet_loop G (List.enumerate k (map f (drop k G))) st) = left"
proof (induction "length G - k" arbitrary: k st a b um left)
  case 0
  then have "drop k G = []" by simp
  then show ?case using "0.prems" by auto
next
  case (Suc n)
  then have lt: "k < length G" by simp
  then have dr: "drop k G = G ! k # drop (Suc k) G" by (simp add: Cons_nth_drop_Suc)
  have n: "n = length G - Suc k" using Suc.hyps(2) by simp
  let ?g = "G ! k"
  let ?rest = "List.enumerate (Suc k) (map f (drop (Suc k) G))"
  have en: "List.enumerate k (map f (drop k G)) = (k, f ?g) # ?rest"
    by (simp add: dr)
  show ?case
  proof (cases "first_match (\<lambda>pred_triplet. f ?g = pred_triplet) (m_pred_remaining st) 0")
    case None
    then have nex: "\<not> list_ex (\<lambda>p. f ?g = p) (m_pred_remaining st)"
      by (simp add: first_match_None)
    define st' where "st' = st\<lparr>m_fn := m_fn st + 1,
        m_unmatched_gold := m_unmatched_gold st @ [?g]\<rparr>"
    obtain a' b' um' left' where rec:
      "greedy_matching (\<lambda>g p. f g = p) (drop (Suc k) G) (m_pred_remaining st') = (a', b', um', left')"
      by (metis prod_cases4)
    have res: "a = a'" "b = b' + 1" "um = ?g # um'" "left = left'"
      using Suc.prems nex rec unfolding dr by (simp_all add: st'_def)
    have step: "triplet_loop G (List.enumerate k (map f (drop k G))) st = triplet_loop G ?rest st'"
      unfolding en using None by (simp add: st'_def)
    show ?thesis
      using Suc.hyps(1) [OF n rec] unfolding step res by (simp add: st'_def)
  next
    case (Some j)
    from first_match_Some0 [OF Some]
    have popj: "pop j (m_pred_remaining st) = remove_first (\<lambda>p. f ?g = p) (m_pred_remaining st)"
      and ex: "list_ex (\<lambda>p. f ?g = p) (m_pred_remaining st)" by simp_all
    define st' where "st' = st\<lparr>m_tp := m_tp st + 1,
        m_pred_remaining := pop j (m_pred_remaining st)\<rparr>"
    obtain a' b' um' left' where rec:
      "greedy_matching (\<lambda>g p. f g = p) (drop (Suc k) G) (m_pred_remaining st') = (a', b', um', left')"
      by (metis prod_cases4)
    have res: "a = a' + 1" "b = b'" "um = um'" "left = left'"
      using Suc.prems ex rec popj unfolding dr by (simp_all add: st'_def)
    have step: "triplet_loop G (List.enumerate k (map f (drop k G))) st = triplet_loop G ?rest st'"
      unfolding en using Some by (simp add: st'_def)
    show ?thesis
      using Suc.hyps(1) [OF n rec] unfolding step res by (simp add: st'_def)
  qed
qed

lemma calculate_metrics_greedy:
  assumes "greedy_matching (\<lambda>g p. normalize_triplet (fmt_triplet g) = p) gold
             (map (\<lambda>t. normalize_triplet (fmt_triplet t)) pred) = (a, b, um, left)"
  shows "\<exists>r. calculate_metrics gold pred = Inr r \<and> tp r = a \<and> fn r = b
           \<and> unmatched_gold r = um \<and> fp r = length left
           \<and> unmatched_pred r = recover_fp pred left []"
proof -
  let ?f = "\<lambda>t. normalize_triplet (fmt_triplet t)"
  let ?st = "\<lparr>m_tp = 0, m_fn = 0, m_unmatched_gold = [], m_pred_remaining = map ?f pred\<rparr>"
  have "greedy_matching (\<lambda>g p. ?f g = p) (drop 0 gold) (m_pred_remaining ?st) = (a, b, um, left)"
    using assms by simp
  from triplet_loop_greedy [OF this]
  show ?thesis by (simp add: calculate_metrics_Inr Let_def)
qed

lemma calculate_typed_metrics_greedy:
  assumes "greedy_matching same gold pred = (a, b, um, left)"
  shows "\<exists>r. calculate_typed_metrics same ty gold pred = Inr r \<and> tp r = a \<and> fn r = b
           \<and> unmatched_gold r = um \<and> unmatched_pred r = left \<and> fp r = length left"
proof -
  let ?st = "\<lparr>s_tp = 0, s_fn = 0, s_unmatched_gold = [], s_pred_remaining = pred,
              s_type_stats = []\<rparr>"
  have "greedy_matching same gold (s_pred_remaining ?st) = (a, b, um, left)"
    using assms by simp
  from typed_loop_greedy [OF this, of ty]
  show ?thesis by (simp add: calculate_typed_metrics_Inr Let_def)
qed

text \<open>
  C1. For every pair of gold and predicted lists, each calculator returns the counts of
  the greedy one-to-one matching described by the specification: gold items in their
  order, the working copy of the predictions scanned from the left, the first item that
  satisfies the predicate counted as a true positive and removed, a gold item without
  such an item counted as a false negative and recorded as unmatched, and every item left
  in the working copy counted as a false positive. For triples the predicate is the
  equality of the normalized form of the gold triple with the normalized form of the
  predicted triple; for entities it is the similarity matcher with the default
  threshold, for relations the equality of the strings.
\<close>

theorem calculators_are_greedy_matching:
  "(\<exists>r. calculate_metrics gold pred = Inr r
       \<and> (tp r, fn r, unmatched_gold r, fp r)
          = (case greedy_matching (\<lambda>g p. normalize_triplet (fmt_triplet g) = p) gold
                    (map (\<lambda>t. normalize_triplet (fmt_triplet t)) pred) of
               (n_tp, n_fn, unmatched, left) \<Rightarrow> (n_tp, n_fn, unmatched, length left)))
   \<and> (\<exists>r. calculate_entity_metrics ge pe = Inr r
       \<and> (tp r, fn r, unmatched_gold r, unmatched_pred r)
          = greedy_matching (\<lambda>g p. is_similar_entity g p DEFAULT_THRESHOLD) ge pe
       \<and> fp r = length (unmatched_pred r))
   \<and> (\<exists>r. calculate_relation_metrics gr pr = Inr r
       \<and> (tp r, fn r, unmatched_gold r, unmatched_pred r) = greedy_matching (=) gr pr
       \<and> fp r = length (unmatched_pred r))"
proof -
  obtain a b um left where t:
    "greedy_matching (\<lambda>g p. normalize_triplet (fmt_triplet g) = p) gold
       (map (\<lambda>t. normalize_triplet (fmt_triplet t)) pred) = (a, b, um, left)"
    by (metis prod_cases4)
  obtain a1 b1 um1 left1 where e:
    "greedy_matching (\<lambda>g p. is_similar_entity g p DEFAULT_THRESHOLD) ge pe = (a1, b1, um1, left1)"
    by (metis prod_cases4)
  obtain a2 b2 um2 left2 where r:
    "greedy_matching (=) gr pr = (a2, b2, um2, left2)"
    by (metis prod_cases4)
  show ?thesis
    using calculate_metrics_greedy [OF t]
      calculate_typed_metrics_greedy [OF e, of extract_entity_type]
      calculate_typed_metrics_greedy [OF r, of extract_relation_type]
    unfolding calculate_entity_metrics_def calculate_relation_metrics_def t e r
    by auto
qed

subsection \<open>Counts\<close>

lemma greedy_matching_counts:
  "greedy_matching same gs work = (a, b, um, left)
   \<Longrightarrow> a + b = length gs \<and> a + length left = length work \<and> b = length um"
proof (induction gs arbitrary: work a b um left)
  case Nil
  then show ?case by auto
next
  case (Cons g gs)
  have rf: "list_ex P xs \<Longrightarrow> Suc (length (remove_first P xs)) = length xs" for P and xs :: "'b list"
    by (induction xs) auto
  show ?case
  proof (cases "list_ex (same g) work")
    case True
    obtain a' b' um' left' where rec:
      "greedy_matching same gs (remove_first (same g) work) = (a', b', um', left')"
      by (metis prod_cases4)
    then show ?thesis using Cons.IH [OF rec] Cons.prems True rf [OF True] by auto
  next
    case False
    obtain a' b' um' left' where rec: "greedy_matching same gs work = (a', b', um', left')"
      by (metis prod_cases4)
    then show ?thesis using Cons.IH [OF rec] Cons.prems False by auto
  qed
qed

lemma bucket_bump:
  "bucket (bump f key stats) k = (if k = key then f (bucket stats key) else bucket stats k)"
  by (induction stats) (auto simp: bucket_def)

lemma bucket_Nil:
  "c_tp (bucket [] t) = 0" "c_fp (bucket [] t) = 0" "c_fn (bucket [] t) = 0"
  by (simp_all add: bucket_def zero_counts_def)

lemma first_match_nth:
  "first_match P xs j = Some i \<Longrightarrow> j \<le> i \<and> i - j < length xs \<and> P (xs ! (i - j))"
proof (induction xs arbitrary: j)
  case Nil
  then show ?case by simp
next
  case (Cons x xs)
  show ?case
  proof (cases "P x")
    case True
    then show ?thesis using Cons.prems by simp
  next
    case False
    then have rec: "first_match P xs (Suc j) = Some i" using Cons.prems by simp
    from Cons.IH [OF rec] have le: "Suc j \<le> i" and rest: "i - Suc j < length xs \<and> P (xs ! (i - Suc j))"
      by simp_all
    have "i - j = Suc (i - Suc j)" using le by simp
    then show ?thesis using le rest by simp
  qed
qed

lemma count_type_pop:
  assumes "i < length xs"
  shows "count_type ty t xs = count_type ty t (pop i xs) + (if ty (xs ! i) = t then 1 else 0)"
proof -
  have "xs = take i xs @ xs ! i # drop (Suc i) xs"
    using assms by (rule id_take_nth_drop)
  then have "count_type ty t xs = count_type ty t (take i xs @ xs ! i # drop (Suc i) xs)"
    by simp
  then show ?thesis by (simp add: count_type_def pop_def)
qed

lemma typed_loop_buckets:
  "c_tp (bucket (s_type_stats (typed_loop same ty gs st)) t)
     + c_fn (bucket (s_type_stats (typed_loop same ty gs st)) t)
   = c_tp (bucket (s_type_stats st) t) + c_fn (bucket (s_type_stats st) t) + count_type ty t gs
   \<and> c_fp (bucket (s_type_stats (typed_loop same ty gs st)) t) = c_fp (bucket (s_type_stats st) t)"
proof (induction gs arbitrary: st)
  case Nil
  then show ?case by (simp add: count_type_def)
next
  case (Cons g gs)
  show ?case
  proof (cases "first_match (\<lambda>pred. same g pred) (s_pred_remaining st) 0")
    case None
    then show ?thesis
      using Cons.IH [of "st\<lparr>s_fn := s_fn st + 1,
        s_unmatched_gold := s_unmatched_gold st @ [g],
        s_type_stats := bump inc_fn (ty g) (s_type_stats st)\<rparr>"]
      by (simp add: bucket_bump inc_fn_def count_type_def)
  next
    case (Some i)
    then show ?thesis
      using Cons.IH [of "st\<lparr>s_tp := s_tp st + 1,
        s_pred_remaining := pop i (s_pred_remaining st),
        s_type_stats := bump inc_tp (ty g) (s_type_stats st)\<rparr>"]
      by (simp add: bucket_bump inc_tp_def count_type_def)
  qed
qed

text \<open>When a match implies that the two items have the same type, the true positives of a
  type and the predicted items of that type still in the working copy add up to a constant.\<close>

lemma typed_loop_pred_side:
  assumes same_type: "\<And>g p. same g p \<Longrightarrow> ty g = ty p"
  shows "c_tp (bucket (s_type_stats (typed_loop same ty gs st)) t)
           + count_type ty t (s_pred_remaining (typed_loop same ty gs st))
         = c_tp (bucket (s_type_stats st) t) + count_type ty t (s_pred_remaining st)"
proof (induction gs arbitrary: st)
  case Nil
  then show ?case by simp
next
  case (Cons g gs)
  show ?case
  proof (cases "first_match (\<lambda>pred. same g pred) (s_pred_remaining st) 0")
    case None
    then show ?thesis
      using Cons.IH [of "st\<lparr>s_fn := s_fn st + 1,
        s_unmatched_gold := s_unmatched_gold st @ [g],
        s_type_stats := bump inc_fn (ty g) (s_type_stats st)\<rparr>"]
      by (simp add: bucket_bump inc_fn_def)
  next
    case (Some i)
    from first_match_nth [OF Some]
    have i: "i < length (s_pred_remaining st)" and m: "same g (s_pred_remaining st ! i)"
      by simp_all
    have tyeq: "ty (s_pred_remaining st ! i) = ty g" using same_type [OF m] by simp
    show ?thesis
      using Cons.IH [of "st\<lparr>s_tp := s_tp st + 1,
        s_pred_remaining := pop i (s_pred_remaining st),
        s_type_stats := bump inc_tp (ty g) (s_type_stats st)\<rparr>"]
        count_type_pop [OF i, of ty t] Some tyeq
      by (simp add: bucket_bump inc_tp_def)
  qed
qed

lemma fp_loop_buckets:
  "c_fp (bucket (fp_loop ty ps stats) t) = c_fp (bucket stats t) + count_type ty t ps
   \<and> c_tp (bucket (fp_loop ty ps stats) t) = c_tp (bucket stats t)
   \<and> c_fn (bucket (fp_loop ty ps stats) t) = c_fn (bucket stats t)"
  by (induction ps arbitrary: stats) (simp_all add: bucket_bump inc_fp_def count_type_def)

lemma type_bucket_of_counts:
  "type_bucket (map (\<lambda>(ty, c). (ty, \<lparr>t_tp = c_tp c, t_fp = c_fp c, t_fn = c_fn c,
         t_precision = P c, t_recall = R c, t_f1 = F c\<rparr>)) stats) t
   = (c_tp (bucket stats t), c_fp (bucket stats t), c_fn (bucket stats t))"
  by (induction stats) (auto simp: type_bucket_def bucket_def zero_counts_def)

lemma calculate_typed_metrics_table:
  "\<exists>r. calculate_typed_metrics same ty gold pred = Inr r
     \<and> tp r + fn r = length gold \<and> tp r + fp r = length pred
     \<and> unmatched_pred r = s_pred_remaining (typed_loop same ty gold
                 \<lparr>s_tp = 0, s_fn = 0, s_unmatched_gold = [], s_pred_remaining = pred,
                  s_type_stats = []\<rparr>)
     \<and> type_bucket (type_stats r) t =
         (c_tp (bucket (s_type_stats (typed_loop same ty gold
                 \<lparr>s_tp = 0, s_fn = 0, s_unmatched_gold = [], s_pred_remaining = pred,
                  s_type_stats = []\<rparr>)) t),
          count_type ty t (s_pred_remaining (typed_loop same ty gold
                 \<lparr>s_tp = 0, s_fn = 0, s_unmatched_gold = [], s_pred_remaining = pred,
                  s_type_stats = []\<rparr>)),
          c_fn (bucket (s_type_stats (typed_loop same ty gold
                 \<lparr>s_tp = 0, s_fn = 0, s_unmatched_gold = [], s_pred_remaining = pred,
                  s_type_stats = []\<rparr>)) t))"
proof -
  define st where "st = typed_loop same ty gold
                 \<lparr>s_tp = 0, s_fn = 0, s_unmatched_gold = [], s_pred_remaining = pred,
                  s_type_stats = []\<rparr>"
  have fp0: "c_fp (bucket (s_type_stats st) t) = 0"
    unfolding st_def using typed_loop_buckets [of same ty gold _ t] by (simp add: bucket_Nil)
  have fp: "c_fp (bucket (fp_loop ty (s_pred_remaining st) (s_type_stats st)) t)
      = count_type ty t (s_pred_remaining st)"
    using fp_loop_buckets [of ty "s_pred_remaining st" "s_type_stats st" t] fp0 by simp
  obtain a b um left where g: "greedy_matching same gold pred = (a, b, um, left)"
    by (metis prod_cases4)
  have "s_tp st + s_fn st = length gold \<and> s_tp st + length (s_pred_remaining st) = length pred"
    unfolding st_def
    using typed_loop_greedy [of same gold _ a b um left ty] greedy_matching_counts [OF g] g
    by simp
  then show ?thesis
    using fp fp_loop_buckets [of ty "s_pred_remaining st" "s_type_stats st" t]
    unfolding st_def [symmetric]
    by (simp add: calculate_typed_metrics_Inr Let_def type_bucket_of_counts st_def [symmetric])
qed


lemma calculate_typed_metrics_buckets:
  "\<exists>r. calculate_typed_metrics same ty gold pred = Inr r
       \<and> tp r + fn r = length gold \<and> tp r + fp r = length pred
       \<and> (case type_bucket (type_stats r) t of
            (n_tp, n_fp, n_fn) \<Rightarrow>
              n_tp + n_fn = count_type ty t gold \<and> n_fp = count_type ty t (unmatched_pred r))"
  using calculate_typed_metrics_table [of same ty gold pred t]
    typed_loop_buckets [of same ty gold "\<lparr>s_tp = 0, s_fn = 0, s_unmatched_gold = [],
      s_pred_remaining = pred, s_type_stats = []\<rparr>" t]
  by (auto simp: bucket_Nil)

lemma calculate_typed_metrics_pred_side:
  assumes same_type: "\<And>g p. same g p \<Longrightarrow> ty g = ty p"
  shows "\<exists>r. calculate_typed_metrics same ty gold pred = Inr r
       \<and> (case type_bucket (type_stats r) t of
            (n_tp, n_fp, n_fn) \<Rightarrow> n_tp + n_fp = count_type ty t pred)"
  using calculate_typed_metrics_table [of same ty gold pred t]
    typed_loop_pred_side [of same ty gold "\<lparr>s_tp = 0, s_fn = 0, s_unmatched_gold = [],
      s_pred_remaining = pred, s_type_stats = []\<rparr>" t, OF same_type]
  by (auto simp: bucket_Nil)

text \<open>
  C2, as the code has it. For every gold and predicted lists, tp + fn is the length of
  the gold list and tp + fp the length of the predicted list, for triples, entities and
  relations. In the per-type tables of entities and relations, for every type label t,
  tp_t + fn_t is the number of gold items of type t and fp_t is the number of unmatched
  predicted items of type t. For relations, tp_t + fp_t is the number of predicted items
  of type t. For entities it is not: a true positive is counted under the type of the
  gold entity, and the similarity matcher can match a gold entity with a predicted
  entity of another type.
\<close>

theorem count_identities:
  "(\<exists>r. calculate_metrics gold pred = Inr r
       \<and> tp r + fn r = length gold \<and> tp r + fp r = length pred)
   \<and> (\<exists>r. calculate_entity_metrics ge pe = Inr r
       \<and> tp r + fn r = length ge \<and> tp r + fp r = length pe
       \<and> (case type_bucket (type_stats r) t of
            (n_tp, n_fp, n_fn) \<Rightarrow>
              n_tp + n_fn = count_type extract_entity_type t ge
              \<and> n_fp = count_type extract_entity_type t (unmatched_pred r)))
   \<and> (\<exists>r. calculate_relation_metrics gr pr = Inr r
       \<and> tp r + fn r = length gr \<and> tp r + fp r = length pr
       \<and> (case type_bucket (type_stats r) t of
            (n_tp, n_fp, n_fn) \<Rightarrow>
              n_tp + n_fn = count_type extract_relation_type t gr
              \<and> n_fp = count_type extract_relation_type t (unmatched_pred r)
              \<and> n_tp + n_fp = count_type extract_relation_type t pr))"
proof -
  obtain a b um left where g:
    "greedy_matching (\<lambda>g p. normalize_triplet (fmt_triplet g) = p) gold
       (map (\<lambda>t. normalize_triplet (fmt_triplet t)) pred) = (a, b, um, left)"
    by (metis prod_cases4)
  from calculate_metrics_greedy [OF g]
  obtain r0 where r0all: "calculate_metrics gold pred = Inr r0 \<and> tp r0 = a \<and> fn r0 = b
           \<and> unmatched_gold r0 = um \<and> fp r0 = length left
           \<and> unmatched_pred r0 = recover_fp pred left []" ..
  have r0: "calculate_metrics gold pred = Inr r0" "tp r0 = a" "fn r0 = b"
    "fp r0 = length left"
    using r0all by simp_all
  have "a + b = length gold" "a + length left = length pred"
    using greedy_matching_counts [OF g] by simp_all
  then have "tp r0 + fn r0 = length gold \<and> tp r0 + fp r0 = length pred"
    using r0 by simp
  then have triple: "\<exists>r. calculate_metrics gold pred = Inr r
       \<and> tp r + fn r = length gold \<and> tp r + fp r = length pred"
    using r0(1) by (intro exI [of _ r0]) simp
  have ent: "\<exists>r. calculate_entity_metrics ge pe = Inr r
       \<and> tp r + fn r = length ge \<and> tp r + fp r = length pe
       \<and> (case type_bucket (type_stats r) t of
            (n_tp, n_fp, n_fn) \<Rightarrow>
              n_tp + n_fn = count_type extract_entity_type t ge
              \<and> n_fp = count_type extract_entity_type t (unmatched_pred r))"
    unfolding calculate_entity_metrics_def by (rule calculate_typed_metrics_buckets)
  have "\<exists>r. calculate_relation_metrics gr pr = Inr r
       \<and> tp r + fn r = length gr \<and> tp r + fp r = length pr
       \<and> (case type_bucket (type_stats r) t of
            (n_tp, n_fp, n_fn) \<Rightarrow>
              n_tp + n_fn = count_type extract_relation_type t gr
              \<and> n_fp = count_type extract_relation_type t (unmatched_pred r))"
    unfolding calculate_relation_metrics_def by (rule calculate_typed_metrics_buckets)
  then obtain r where rall: "calculate_relation_metrics gr pr = Inr r
       \<and> tp r + fn r = length gr \<and> tp r + fp r = length pr
       \<and> (case type_bucket (type_stats r) t of
            (n_tp, n_fp, n_fn) \<Rightarrow>
              n_tp + n_fn = count_type extract_relation_type t gr
              \<and> n_fp = count_type extract_relation_type t (unmatched_pred r))" ..
  have r: "calculate_relation_metrics gr pr = Inr r"
    "tp r + fn r = length gr" "tp r + fp r = length pr"
    and rb: "case type_bucket (type_stats r) t of
            (n_tp, n_fp, n_fn) \<Rightarrow>
              n_tp + n_fn = count_type extract_relation_type t gr
              \<and> n_fp = count_type extract_relation_type t (unmatched_pred r)"
    using rall by simp_all
  have same_type: "\<And>g p :: pystr. g = p \<Longrightarrow> extract_relation_type g = extract_relation_type p"
    by simp
  have "\<exists>r. calculate_relation_metrics gr pr = Inr r
       \<and> (case type_bucket (type_stats r) t of
            (n_tp, n_fp, n_fn) \<Rightarrow> n_tp + n_fp = count_type extract_relation_type t pr)"
    unfolding calculate_relation_metrics_def
    by (rule calculate_typed_metrics_pred_side) simp
  then obtain r' where r'all: "calculate_relation_metrics gr pr = Inr r'
       \<and> (case type_bucket (type_stats r') t of
            (n_tp, n_fp, n_fn) \<Rightarrow> n_tp + n_fp = count_type extract_relation_type t pr)" ..
  have r': "calculate_relation_metrics gr pr = Inr r'"
    and rp: "case type_bucket (type_stats r') t of
            (n_tp, n_fp, n_fn) \<Rightarrow> n_tp + n_fp = count_type extract_relation_type t pr"
    using r'all by simp_all
  have eq: "r' = r" using r(1) r' by simp
  obtain x y z where xyz: "type_bucket (type_stats r) t = (x, y, z)"
    by (metis prod_cases3)
  have "case type_bucket (type_stats r) t of
            (n_tp, n_fp, n_fn) \<Rightarrow>
              n_tp + n_fn = count_type extract_relation_type t gr
              \<and> n_fp = count_type extract_relation_type t (unmatched_pred r)
              \<and> n_tp + n_fp = count_type extract_relation_type t pr"
    using rb rp unfolding eq xyz by simp
  then have rel: "\<exists>r. calculate_relation_metrics gr pr = Inr r
       \<and> tp r + fn r = length gr \<and> tp r + fp r = length pr
       \<and> (case type_bucket (type_stats r) t of
            (n_tp, n_fp, n_fn) \<Rightarrow>
              n_tp + n_fn = count_type extract_relation_type t gr
              \<and> n_fp = count_type extract_relation_type t (unmatched_pred r)
              \<and> n_tp + n_fp = count_type extract_relation_type t pr)"
    using r by (intro exI [of _ r]) simp
  show ?thesis
    by (intro conjI) (rule triple, rule ent, rule rel)
qed

text \<open>
  The entity counterexample: the gold entity \<open>A:x\<close> matches the predicted entity \<open>B:x\<close>
  (equal contents). The bucket of type \<open>A\<close> gets tp = 1 and fp = 0, and no predicted
  entity has type \<open>A\<close>.
\<close>

theorem entity_bucket_pred_side_fails:
  "calculate_entity_metrics [str ''A:x''] [str ''B:x'']
     = Inr \<lparr>tp = 1, fp = 0, fn = 0, precision = 1, recall = 1, f1 = 1,
            unmatched_gold = [], unmatched_pred = [],
            type_stats = [(str ''A'', \<lparr>t_tp = 1, t_fp = 0, t_fn = 0,
                                       t_precision = 1, t_recall = 1, t_f1 = 1\<rparr>)]\<rparr>
   \<and> type_bucket [(str ''A'', \<lparr>t_tp = 1, t_fp = 0, t_fn = 0,
                                 t_precision = 1, t_recall = 1, t_f1 = 1\<rparr>)] (str ''A'') = (1, 0, 0)
   \<and> count_type extract_entity_type (str ''A'') [str ''B:x''] = 0"
  by code_simp

subsection \<open>The unmatched predicted triples\<close>

lemma set_remove_first: "set (remove_first P xs) \<subseteq> set xs"
  by (induction xs) auto

lemma greedy_matching_left:
  "greedy_matching same gs work = (a, b, um, left) \<Longrightarrow> set left \<subseteq> set work"
proof (induction gs arbitrary: work a b um left)
  case Nil
  then show ?case by auto
next
  case (Cons g gs)
  show ?case
  proof (cases "list_ex (same g) work")
    case True
    obtain a' b' um' left' where rec:
      "greedy_matching same gs (remove_first (same g) work) = (a', b', um', left')"
      by (metis prod_cases4)
    have "left = left'" using Cons.prems True rec by simp
    then show ?thesis using Cons.IH [OF rec] set_remove_first [of "same g" work] by blast
  next
    case False
    obtain a' b' um' left' where rec: "greedy_matching same gs work = (a', b', um', left')"
      by (metis prod_cases4)
    have "left = left'" using Cons.prems False rec by simp
    then show ?thesis using Cons.IH [OF rec] by blast
  qed
qed

lemma recover_fp_find:
  "set left \<subseteq> set (map (\<lambda>t. normalize_triplet (fmt_triplet t)) pred)
   \<Longrightarrow> map Some (recover_fp pred left acc)
       = map Some acc @ map (\<lambda>n. find (\<lambda>t. normalize_triplet (fmt_triplet t) = n) pred) left"
proof (induction left arbitrary: acc)
  case Nil
  then show ?case by simp
next
  case (Cons n left)
  have "n \<in> set (map (\<lambda>t. normalize_triplet (fmt_triplet t)) pred)"
    using Cons.prems by simp
  then obtain t where "t \<in> set pred" "normalize_triplet (fmt_triplet t) = n" by auto
  then have "find (\<lambda>t. normalize_triplet (fmt_triplet t) = n) pred \<noteq> None"
    unfolding find_None_iff by blast
  then obtain u where u: "find (\<lambda>t. normalize_triplet (fmt_triplet t) = n) pred = Some u"
    by blast
  have sub: "set left \<subseteq> set (map (\<lambda>t. normalize_triplet (fmt_triplet t)) pred)"
    using Cons.prems by simp
  show ?case using Cons.IH [OF sub, of "acc @ [u]"] u by simp
qed

lemma find_in_set: "find P xs = Some x \<Longrightarrow> x \<in> set xs"
  by (induction xs) (auto split: if_splits)

lemmas char_defs =
  LPAREN_def RPAREN_def LBRACK_def RBRACK_def LBRACE_def RBRACE_def COMMA_def SPACE_def

lemma normalize_a_b_r_c:
  "normalize_triplet (fmt_triplet (str ''a b'', str ''r'', str ''c'')) = str ''a b, r, c''"
  "normalize_triplet (fmt_triplet (str ''a  b'', str ''r'', str ''c'')) = str ''a b, r, c''"
  by (simp_all add: str_def normalize_triplet_def fmt_triplet_def sub_brackets_def is_bracket_def
      char_defs is_space_def strip_def)

text \<open>
  C10. For every gold and predicted triple lists, the list of unmatched predicted triples
  returned by \<open>calculate_metrics\<close> has fp elements, each of them a triple of the predicted
  list, and its k-th element is the first triple of the predicted list whose normalized
  form is the k-th normalized string left in the working copy. So when two predicted
  triples have the same normalized form, the triple recorded is the first of them, also
  when that one is the occurrence that was matched: for the gold triple \<open>(a b, r, c)\<close>
  and the predicted triples \<open>(a b, r, c)\<close> and \<open>(a  b, r, c)\<close> (two spaces), the first
  predicted triple is the true positive, the second is left over, and the triple recorded
  as unmatched is the first.
\<close>

theorem unmatched_pred_is_first_occurrence:
  "(\<exists>r. calculate_metrics gold pred = Inr r
       \<and> length (unmatched_pred r) = fp r
       \<and> set (unmatched_pred r) \<subseteq> set pred
       \<and> (case greedy_matching (\<lambda>g p. normalize_triplet (fmt_triplet g) = p) gold
                  (map (\<lambda>t. normalize_triplet (fmt_triplet t)) pred) of
             (n_tp, n_fn, unmatched, left) \<Rightarrow>
               map Some (unmatched_pred r)
               = map (\<lambda>n. find (\<lambda>t. normalize_triplet (fmt_triplet t) = n) pred) left))
   \<and> (\<exists>r. calculate_metrics [(str ''a b'', str ''r'', str ''c'')]
              [(str ''a b'', str ''r'', str ''c''), (str ''a  b'', str ''r'', str ''c'')] = Inr r
       \<and> tp r = 1 \<and> fp r = 1 \<and> unmatched_pred r = [(str ''a b'', str ''r'', str ''c'')])"
proof -
  let ?f = "\<lambda>t. normalize_triplet (fmt_triplet t)"
  obtain a b um left where g:
    "greedy_matching (\<lambda>g p. ?f g = p) gold (map ?f pred) = (a, b, um, left)"
    by (metis prod_cases4)
  from calculate_metrics_greedy [OF g]
  obtain r where rall: "calculate_metrics gold pred = Inr r \<and> tp r = a \<and> fn r = b
           \<and> unmatched_gold r = um \<and> fp r = length left
           \<and> unmatched_pred r = recover_fp pred left []" ..
  have sub: "set left \<subseteq> set (map ?f pred)" using greedy_matching_left [OF g] .
  have m: "map Some (unmatched_pred r) = map (\<lambda>n. find (\<lambda>t. ?f t = n) pred) left"
    using recover_fp_find [OF sub, of "[]"] rall by simp
  have len: "length (unmatched_pred r) = fp r"
    using arg_cong [OF m, of length] rall by simp
  have mem: "set (unmatched_pred r) \<subseteq> set pred"
  proof
    fix t assume "t \<in> set (unmatched_pred r)"
    then have "Some t \<in> set (map Some (unmatched_pred r))" by simp
    then have "Some t \<in> set (map (\<lambda>n. find (\<lambda>t. ?f t = n) pred) left)" using m by simp
    then obtain n where "find (\<lambda>t. ?f t = n) pred = Some t" by auto
    then show "t \<in> set pred" by (rule find_in_set)
  qed
  have general: "\<exists>r. calculate_metrics gold pred = Inr r
       \<and> length (unmatched_pred r) = fp r
       \<and> set (unmatched_pred r) \<subseteq> set pred
       \<and> (case greedy_matching (\<lambda>g p. ?f g = p) gold (map ?f pred) of
             (n_tp, n_fn, unmatched, left) \<Rightarrow>
               map Some (unmatched_pred r) = map (\<lambda>n. find (\<lambda>t. ?f t = n) pred) left)"
    using rall len mem m unfolding g by (intro exI [of _ r]) simp
  have example: "\<exists>r. calculate_metrics [(str ''a b'', str ''r'', str ''c'')]
              [(str ''a b'', str ''r'', str ''c''), (str ''a  b'', str ''r'', str ''c'')] = Inr r
       \<and> tp r = 1 \<and> fp r = 1 \<and> unmatched_pred r = [(str ''a b'', str ''r'', str ''c'')]"
  proof -
    have "calculate_metrics [(str ''a b'', str ''r'', str ''c'')]
              [(str ''a b'', str ''r'', str ''c''), (str ''a  b'', str ''r'', str ''c'')]
        = Inr \<lparr>tp = 1, fp = 1, fn = 0, precision = 1 / 2, recall = 1, f1 = 2 / 3,
               unmatched_gold = [], unmatched_pred = [(str ''a b'', str ''r'', str ''c'')]\<rparr>"
      by (simp add: calculate_metrics_Inr Let_def normalize_a_b_r_c enumerate_eq_zip pop_def
          guarded_ratio_def guarded_f1_def)
    then show ?thesis by simp
  qed
  show ?thesis by (intro conjI) (rule general, rule example)
qed

section \<open>Properties of the aggregator\<close>

lemma overall_of_guarded:
  "overall_of c = Inr \<lparr>o_tp = c_tp c, o_fp = c_fp c, o_fn = c_fn c,
       o_precision = guarded_ratio (c_tp c) (c_fp c),
       o_recall = guarded_ratio (c_tp c) (c_fn c),
       o_f1 = guarded_f1 (guarded_ratio (c_tp c) (c_fp c)) (guarded_ratio (c_tp c) (c_fn c))\<rparr>"
  by (simp add: overall_of_def ratios_guarded then_do_def)

lemma accumulate_sums:
  "accumulate (map (\<lambda>(gold, pred). process_file_pair gold pred) files) (t, e, r) = (t', e', r')
   \<Longrightarrow> c_tp t' = c_tp t + summed (\<lambda>m. tp (fr_triplet m)) files
     \<and> c_fp t' = c_fp t + summed (\<lambda>m. fp (fr_triplet m)) files
     \<and> c_fn t' = c_fn t + summed (\<lambda>m. fn (fr_triplet m)) files
     \<and> c_tp e' = c_tp e + summed (\<lambda>m. tp (fr_entity m)) files
     \<and> c_fp e' = c_fp e + summed (\<lambda>m. fp (fr_entity m)) files
     \<and> c_fn e' = c_fn e + summed (\<lambda>m. fn (fr_entity m)) files
     \<and> c_tp r' = c_tp r + summed (\<lambda>m. tp (fr_relation m)) files
     \<and> c_fp r' = c_fp r + summed (\<lambda>m. fp (fr_relation m)) files
     \<and> c_fn r' = c_fn r + summed (\<lambda>m. fn (fr_relation m)) files"
proof (induction files arbitrary: t e r)
  case Nil
  then show ?case by (simp add: summed_def)
next
  case (Cons fl files)
  obtain gold pred where fl: "fl = (gold, pred)" by (cases fl)
  show ?case
  proof (cases "process_file_pair gold pred")
    case None
    then show ?thesis using Cons.IH [of t e r] Cons.prems by (simp add: fl summed_def)
  next
    case (Some m)
    then show ?thesis
      using Cons.IH [of
          "\<lparr>c_tp = c_tp t + tp (fr_triplet m), c_fp = c_fp t + fp (fr_triplet m),
            c_fn = c_fn t + fn (fr_triplet m)\<rparr>"
          "\<lparr>c_tp = c_tp e + tp (fr_entity m), c_fp = c_fp e + fp (fr_entity m),
            c_fn = c_fn e + fn (fr_entity m)\<rparr>"
          "\<lparr>c_tp = c_tp r + tp (fr_relation m), c_fp = c_fp r + fp (fr_relation m),
            c_fn = c_fn r + fn (fr_relation m)\<rparr>"] Cons.prems
      by (simp add: fl summed_def)
  qed
qed

lemma process_file_pair_triplet:
  "\<exists>m. process_file_pair gold pred = Some m \<and> calculate_metrics gold pred = Inr (fr_triplet m)"
proof -
  obtain tm where tm: "calculate_metrics gold pred = Inr tm"
    by (simp add: calculate_metrics_Inr Let_def)
  obtain ge gr where g: "extract_entities_and_relations gold True = (ge, gr)" by (metis surj_pair)
  obtain pe pr where p: "extract_entities_and_relations pred True = (pe, pr)" by (metis surj_pair)
  obtain em where em: "calculate_entity_metrics ge pe = Inr em"
    by (simp add: calculate_entity_metrics_def calculate_typed_metrics_Inr Let_def)
  obtain rm where rm: "calculate_relation_metrics gr pr = Inr rm"
    by (simp add: calculate_relation_metrics_def calculate_typed_metrics_Inr Let_def)
  show ?thesis by (simp add: process_file_pair_def tm g p em rm)
qed

subsection \<open>True positives of an exact matching are a multiset intersection\<close>

lemma remove_first_eq: "remove_first (\<lambda>p. x = p) xs = remove1 x xs"
  by (induction xs) auto

lemma greedy_matching_tp_inter:
  "greedy_matching (\<lambda>g p. f g = p) gs work = (a, b, um, left)
   \<Longrightarrow> a = size (mset (map f gs) \<inter># mset work)"
proof (induction gs arbitrary: work a b um left)
  case Nil
  then show ?case by simp
next
  case (Cons g gs)
  show ?case
  proof (cases "f g \<in> set work")
    case True
    obtain a' b' um' left' where rec:
      "greedy_matching (\<lambda>g p. f g = p) gs (remove1 (f g) work) = (a', b', um', left')"
      by (metis prod_cases4)
    have a: "a = Suc a'"
      using Cons.prems True rec by (simp add: list_ex_iff remove_first_eq)
    have "mset work = add_mset (f g) (mset (remove1 (f g) work))"
      using True by simp
    then have "mset (map f (g # gs)) \<inter># mset work
        = add_mset (f g) (mset (map f gs) \<inter># mset (remove1 (f g) work))"
      by (metis add_mset_inter_add_mset list.simps(9) mset.simps(2))
    then show ?thesis using Cons.IH [OF rec] a by simp
  next
    case False
    obtain a' b' um' left' where rec:
      "greedy_matching (\<lambda>g p. f g = p) gs work = (a', b', um', left')"
      by (metis prod_cases4)
    have a: "a = a'"
      using Cons.prems False rec by (simp add: list_ex_iff)
    have "mset (map f (g # gs)) \<inter># mset work = mset (map f gs) \<inter># mset work"
      using False by (simp add: inter_add_left1)
    then show ?thesis using Cons.IH [OF rec] a by simp
  qed
qed

lemma size_inter_add:
  "size (A \<inter># B) + size (C \<inter># D) \<le> size ((A + C) \<inter># (B + D))"
proof -
  have "(A \<inter># B) + (C \<inter># D) \<subseteq># (A + C) \<inter># (B + D)"
    by (auto simp: subseteq_mset_def min_def)
  then have "size ((A \<inter># B) + (C \<inter># D)) \<le> size ((A + C) \<inter># (B + D))"
    by (rule size_mset_mono)
  then show ?thesis by simp
qed

lemma calculate_metrics_tp_inter:
  "\<exists>r. calculate_metrics gold pred = Inr r
     \<and> tp r = size (mset (map (\<lambda>t. normalize_triplet (fmt_triplet t)) gold)
                    \<inter># mset (map (\<lambda>t. normalize_triplet (fmt_triplet t)) pred))
     \<and> tp r + fn r = length gold \<and> tp r + fp r = length pred"
proof -
  obtain a b um left where g:
    "greedy_matching (\<lambda>g p. normalize_triplet (fmt_triplet g) = p) gold
       (map (\<lambda>t. normalize_triplet (fmt_triplet t)) pred) = (a, b, um, left)"
    by (metis prod_cases4)
  from calculate_metrics_greedy [OF g]
  obtain r where rall: "calculate_metrics gold pred = Inr r \<and> tp r = a \<and> fn r = b
           \<and> unmatched_gold r = um \<and> fp r = length left
           \<and> unmatched_pred r = recover_fp pred left []" ..
  show ?thesis
    using rall greedy_matching_tp_inter [OF g] greedy_matching_counts [OF g]
    by (intro exI [of _ r]) simp
qed

lemma summed_triplet:
  "summed (\<lambda>m. tp (fr_triplet m)) files
     \<le> size (mset (map (\<lambda>t. normalize_triplet (fmt_triplet t)) (concat (map fst files)))
              \<inter># mset (map (\<lambda>t. normalize_triplet (fmt_triplet t)) (concat (map snd files))))
   \<and> summed (\<lambda>m. tp (fr_triplet m)) files + summed (\<lambda>m. fn (fr_triplet m)) files
       = length (concat (map fst files))
   \<and> summed (\<lambda>m. tp (fr_triplet m)) files + summed (\<lambda>m. fp (fr_triplet m)) files
       = length (concat (map snd files))"
proof (induction files)
  case Nil
  then show ?case by (simp add: summed_def)
next
  case (Cons fl files)
  let ?f = "\<lambda>t. normalize_triplet (fmt_triplet t)"
  obtain gold pred where fl: "fl = (gold, pred)" by (cases fl)
  obtain m where m: "process_file_pair gold pred = Some m"
    "calculate_metrics gold pred = Inr (fr_triplet m)"
    using process_file_pair_triplet by blast
  obtain r where r: "calculate_metrics gold pred = Inr r"
    "tp r = size (mset (map ?f gold) \<inter># mset (map ?f pred))"
    "tp r + fn r = length gold" "tp r + fp r = length pred"
    using calculate_metrics_tp_inter by blast
  have eq: "fr_triplet m = r" using m(2) r(1) by simp
  have step: "summed sel (fl # files) = sel m + summed sel files" for sel
    by (simp add: summed_def fl m(1))
  have "size (mset (map ?f gold) \<inter># mset (map ?f pred))
      + size (mset (map ?f (concat (map fst files))) \<inter># mset (map ?f (concat (map snd files))))
      \<le> size (mset (map ?f (concat (map fst (fl # files))))
              \<inter># mset (map ?f (concat (map snd (fl # files)))))"
    using size_inter_add [of "mset (map ?f gold)" "mset (map ?f pred)"
        "mset (map ?f (concat (map fst files)))" "mset (map ?f (concat (map snd files)))"]
    by (simp add: fl)
  then show ?case
    using Cons.IH r(2,3,4) unfolding step eq by (simp add: fl)
qed


lemma zero_guarded_metrics_triplet:
  "calculate_metrics gold pred = Inr d
   \<Longrightarrow> precision d = guarded_ratio (tp d) (fp d) \<and> recall d = guarded_ratio (tp d) (fn d)
     \<and> f1 d = guarded_f1 (precision d) (recall d)"
  by (auto simp: calculate_metrics_Inr Let_def)

lemma overall_of_props:
  "\<exists>v. overall_of c = Inr v \<and> o_tp v = c_tp c \<and> o_fp v = c_fp c \<and> o_fn v = c_fn c
       \<and> guarded_overall v"
  by (simp add: overall_of_guarded guarded_overall_def)

lemma guarded_ratio_mono:
  assumes "a + x = b + y" and "a \<le> b"
  shows "guarded_ratio a x \<le> guarded_ratio b y"
proof (cases "0 < a + x")
  case True
  have "(of_nat a :: rat) / of_nat (a + x) \<le> of_nat b / of_nat (a + x)"
    using assms(2) by (intro divide_right_mono) simp_all
  then show ?thesis using True assms(1) by (simp add: guarded_ratio_def)
next
  case False
  then show ?thesis using assms by (simp add: guarded_ratio_def)
qed

lemma process_folders_sums:
  assumes "files \<noteq> []"
  shows "\<exists>c. process_folders files = Some (Inr c)
     \<and> o_tp (overall_triplet c) = summed (\<lambda>m. tp (fr_triplet m)) files
     \<and> o_fp (overall_triplet c) = summed (\<lambda>m. fp (fr_triplet m)) files
     \<and> o_fn (overall_triplet c) = summed (\<lambda>m. fn (fr_triplet m)) files
     \<and> o_tp (overall_entity c) = summed (\<lambda>m. tp (fr_entity m)) files
     \<and> o_fp (overall_entity c) = summed (\<lambda>m. fp (fr_entity m)) files
     \<and> o_fn (overall_entity c) = summed (\<lambda>m. fn (fr_entity m)) files
     \<and> o_tp (overall_relation c) = summed (\<lambda>m. tp (fr_relation m)) files
     \<and> o_fp (overall_relation c) = summed (\<lambda>m. fp (fr_relation m)) files
     \<and> o_fn (overall_relation c) = summed (\<lambda>m. fn (fr_relation m)) files
     \<and> guarded_overall (overall_triplet c)
     \<and> guarded_overall (overall_entity c)
     \<and> guarded_overall (overall_relation c)"
proof -
  obtain t e r where acc:
    "accumulate (map (\<lambda>(gold, pred). process_file_pair gold pred) files)
       (zero_counts, zero_counts, zero_counts) = (t, e, r)"
    by (metis prod_cases3)
  obtain vt where vt: "overall_of t = Inr vt \<and> o_tp vt = c_tp t \<and> o_fp vt = c_fp t
      \<and> o_fn vt = c_fn t \<and> guarded_overall vt"
    using overall_of_props by blast
  obtain ve where ve: "overall_of e = Inr ve \<and> o_tp ve = c_tp e \<and> o_fp ve = c_fp e
      \<and> o_fn ve = c_fn e \<and> guarded_overall ve"
    using overall_of_props by blast
  obtain vr where vr: "overall_of r = Inr vr \<and> o_tp vr = c_tp r \<and> o_fp vr = c_fp r
      \<and> o_fn vr = c_fn r \<and> guarded_overall vr"
    using overall_of_props by blast
  have pf: "process_folders files
      = Some (Inr \<lparr>overall_triplet = vt, overall_entity = ve, overall_relation = vr\<rparr>)"
    using assms by (simp add: process_folders_def acc vt ve vr then_do_def)
  show ?thesis
    using accumulate_sums [OF acc] vt ve vr
    by (intro exI [of _ "\<lparr>overall_triplet = vt, overall_entity = ve, overall_relation = vr\<rparr>"])
       (simp add: pf zero_counts_def)
qed

text \<open>
  C3, as the code has it. For every non-empty corpus, the aggregator returns totals whose
  tp, fp and fn are the sums of the per-file counts, at each of the three granularities,
  and whose precision, recall and F1 are the zero-guarded ratios of these sums. For
  triples, tp + fn and tp + fp of the totals are those of the direct computation over the
  concatenation of all gold lists and of all predicted lists, but tp counts only the
  matches inside a file: it is at most the tp of the direct computation, and so are
  precision and recall. For a corpus of one file the totals for triples are the counts and
  the ratios of the direct computation.
\<close>

theorem corpus_metrics_from_sums:
  "(files \<noteq> [] \<longrightarrow>
     (\<exists>c d. process_folders files = Some (Inr c)
        \<and> calculate_metrics (concat (map fst files)) (concat (map snd files)) = Inr d
        \<and> o_tp (overall_triplet c) = summed (\<lambda>m. tp (fr_triplet m)) files
        \<and> o_fp (overall_triplet c) = summed (\<lambda>m. fp (fr_triplet m)) files
        \<and> o_fn (overall_triplet c) = summed (\<lambda>m. fn (fr_triplet m)) files
        \<and> o_tp (overall_entity c) = summed (\<lambda>m. tp (fr_entity m)) files
        \<and> o_fp (overall_entity c) = summed (\<lambda>m. fp (fr_entity m)) files
        \<and> o_fn (overall_entity c) = summed (\<lambda>m. fn (fr_entity m)) files
        \<and> o_tp (overall_relation c) = summed (\<lambda>m. tp (fr_relation m)) files
        \<and> o_fp (overall_relation c) = summed (\<lambda>m. fp (fr_relation m)) files
        \<and> o_fn (overall_relation c) = summed (\<lambda>m. fn (fr_relation m)) files
        \<and> guarded_overall (overall_triplet c)
        \<and> guarded_overall (overall_entity c)
        \<and> guarded_overall (overall_relation c)
        \<and> o_tp (overall_triplet c) + o_fn (overall_triplet c) = tp d + fn d
        \<and> o_tp (overall_triplet c) + o_fp (overall_triplet c) = tp d + fp d
        \<and> o_tp (overall_triplet c) \<le> tp d
        \<and> o_precision (overall_triplet c) \<le> precision d
        \<and> o_recall (overall_triplet c) \<le> recall d))
   \<and> (\<exists>c d. process_folders [(gold, pred)] = Some (Inr c)
        \<and> calculate_metrics gold pred = Inr d
        \<and> o_tp (overall_triplet c) = tp d \<and> o_fp (overall_triplet c) = fp d
        \<and> o_fn (overall_triplet c) = fn d
        \<and> o_precision (overall_triplet c) = precision d
        \<and> o_recall (overall_triplet c) = recall d
        \<and> o_f1 (overall_triplet c) = f1 d)"
proof (intro conjI impI)
  assume ne: "files \<noteq> []"
  let ?f = "\<lambda>t. normalize_triplet (fmt_triplet t)"
  from process_folders_sums [OF ne] obtain c where c: "process_folders files = Some (Inr c)
     \<and> o_tp (overall_triplet c) = summed (\<lambda>m. tp (fr_triplet m)) files
     \<and> o_fp (overall_triplet c) = summed (\<lambda>m. fp (fr_triplet m)) files
     \<and> o_fn (overall_triplet c) = summed (\<lambda>m. fn (fr_triplet m)) files
     \<and> o_tp (overall_entity c) = summed (\<lambda>m. tp (fr_entity m)) files
     \<and> o_fp (overall_entity c) = summed (\<lambda>m. fp (fr_entity m)) files
     \<and> o_fn (overall_entity c) = summed (\<lambda>m. fn (fr_entity m)) files
     \<and> o_tp (overall_relation c) = summed (\<lambda>m. tp (fr_relation m)) files
     \<and> o_fp (overall_relation c) = summed (\<lambda>m. fp (fr_relation m)) files
     \<and> o_fn (overall_relation c) = summed (\<lambda>m. fn (fr_relation m)) files
     \<and> guarded_overall (overall_triplet c)
     \<and> guarded_overall (overall_entity c)
     \<and> guarded_overall (overall_relation c)" ..
  from calculate_metrics_tp_inter [of "concat (map fst files)" "concat (map snd files)"]
  obtain d where d: "calculate_metrics (concat (map fst files)) (concat (map snd files)) = Inr d
     \<and> tp d = size (mset (map ?f (concat (map fst files))) \<inter># mset (map ?f (concat (map snd files))))
     \<and> tp d + fn d = length (concat (map fst files))
     \<and> tp d + fp d = length (concat (map snd files))" ..
  have le: "o_tp (overall_triplet c) \<le> tp d"
    and g: "o_tp (overall_triplet c) + o_fn (overall_triplet c) = tp d + fn d"
    and p: "o_tp (overall_triplet c) + o_fp (overall_triplet c) = tp d + fp d"
    using summed_triplet [of files] c d by simp_all
  from zero_guarded_metrics_triplet [of "concat (map fst files)" "concat (map snd files)"] d
  have dg: "precision d = guarded_ratio (tp d) (fp d)" "recall d = guarded_ratio (tp d) (fn d)"
    by simp_all
  have cg: "o_precision (overall_triplet c)
        = guarded_ratio (o_tp (overall_triplet c)) (o_fp (overall_triplet c))"
      "o_recall (overall_triplet c)
        = guarded_ratio (o_tp (overall_triplet c)) (o_fn (overall_triplet c))"
    using c by (simp_all add: guarded_overall_def)
  have pr: "o_precision (overall_triplet c) \<le> precision d"
    unfolding cg dg by (rule guarded_ratio_mono [OF p le])
  have re: "o_recall (overall_triplet c) \<le> recall d"
    unfolding cg dg by (rule guarded_ratio_mono [OF g le])
  show "\<exists>c d. process_folders files = Some (Inr c)
        \<and> calculate_metrics (concat (map fst files)) (concat (map snd files)) = Inr d
        \<and> o_tp (overall_triplet c) = summed (\<lambda>m. tp (fr_triplet m)) files
        \<and> o_fp (overall_triplet c) = summed (\<lambda>m. fp (fr_triplet m)) files
        \<and> o_fn (overall_triplet c) = summed (\<lambda>m. fn (fr_triplet m)) files
        \<and> o_tp (overall_entity c) = summed (\<lambda>m. tp (fr_entity m)) files
        \<and> o_fp (overall_entity c) = summed (\<lambda>m. fp (fr_entity m)) files
        \<and> o_fn (overall_entity c) = summed (\<lambda>m. fn (fr_entity m)) files
        \<and> o_tp (overall_relation c) = summed (\<lambda>m. tp (fr_relation m)) files
        \<and> o_fp (overall_relation c) = summed (\<lambda>m. fp (fr_relation m)) files
        \<and> o_fn (overall_relation c) = summed (\<lambda>m. fn (fr_relation m)) files
        \<and> guarded_overall (overall_triplet c)
        \<and> guarded_overall (overall_entity c)
        \<and> guarded_overall (overall_relation c)
        \<and> o_tp (overall_triplet c) + o_fn (overall_triplet c) = tp d + fn d
        \<and> o_tp (overall_triplet c) + o_fp (overall_triplet c) = tp d + fp d
        \<and> o_tp (overall_triplet c) \<le> tp d
        \<and> o_precision (overall_triplet c) \<le> precision d
        \<and> o_recall (overall_triplet c) \<le> recall d"
    using c d le g p pr re by (intro exI [of _ c] exI [of _ d]) simp
next
  have ne: "[(gold, pred)] \<noteq> []" by simp
  from process_folders_sums [OF ne] obtain c where c: "process_folders [(gold, pred)] = Some (Inr c)
     \<and> o_tp (overall_triplet c) = summed (\<lambda>m. tp (fr_triplet m)) [(gold, pred)]
     \<and> o_fp (overall_triplet c) = summed (\<lambda>m. fp (fr_triplet m)) [(gold, pred)]
     \<and> o_fn (overall_triplet c) = summed (\<lambda>m. fn (fr_triplet m)) [(gold, pred)]
     \<and> o_tp (overall_entity c) = summed (\<lambda>m. tp (fr_entity m)) [(gold, pred)]
     \<and> o_fp (overall_entity c) = summed (\<lambda>m. fp (fr_entity m)) [(gold, pred)]
     \<and> o_fn (overall_entity c) = summed (\<lambda>m. fn (fr_entity m)) [(gold, pred)]
     \<and> o_tp (overall_relation c) = summed (\<lambda>m. tp (fr_relation m)) [(gold, pred)]
     \<and> o_fp (overall_relation c) = summed (\<lambda>m. fp (fr_relation m)) [(gold, pred)]
     \<and> o_fn (overall_relation c) = summed (\<lambda>m. fn (fr_relation m)) [(gold, pred)]
     \<and> guarded_overall (overall_triplet c)
     \<and> guarded_overall (overall_entity c)
     \<and> guarded_overall (overall_relation c)" ..
  from process_file_pair_triplet [of gold pred]
  obtain m where m: "process_file_pair gold pred = Some m
      \<and> calculate_metrics gold pred = Inr (fr_triplet m)" ..
  have s: "summed sel [(gold, pred)] = sel m" for sel
    using m by (simp add: summed_def)
  from zero_guarded_metrics_triplet [of gold pred] m
  have dg: "precision (fr_triplet m) = guarded_ratio (tp (fr_triplet m)) (fp (fr_triplet m))"
    "recall (fr_triplet m) = guarded_ratio (tp (fr_triplet m)) (fn (fr_triplet m))"
    "f1 (fr_triplet m) = guarded_f1 (precision (fr_triplet m)) (recall (fr_triplet m))"
    by simp_all
  show "\<exists>c d. process_folders [(gold, pred)] = Some (Inr c)
        \<and> calculate_metrics gold pred = Inr d
        \<and> o_tp (overall_triplet c) = tp d \<and> o_fp (overall_triplet c) = fp d
        \<and> o_fn (overall_triplet c) = fn d
        \<and> o_precision (overall_triplet c) = precision d
        \<and> o_recall (overall_triplet c) = recall d
        \<and> o_f1 (overall_triplet c) = f1 d"
    using c m dg unfolding s
    by (intro exI [of _ c] exI [of _ "fr_triplet m"]) (simp add: guarded_overall_def)
qed

theorem corpus_metrics_from_sums_witness:
  "[([(str ''a'', str ''r'', str ''c'')], []), ([], [(str ''a'', str ''r'', str ''c'')])] \<noteq> []
   \<and> (\<exists>c d. process_folders
                [([(str ''a'', str ''r'', str ''c'')], []), ([], [(str ''a'', str ''r'', str ''c'')])]
              = Some (Inr c)
          \<and> calculate_metrics [(str ''a'', str ''r'', str ''c'')] [(str ''a'', str ''r'', str ''c'')]
              = Inr d
          \<and> o_tp (overall_triplet c) \<le> tp d
          \<and> o_precision (overall_triplet c) \<le> precision d
          \<and> o_recall (overall_triplet c) \<le> recall d)"
proof -
  have ne: "[([(str ''a'', str ''r'', str ''c'')], []), ([], [(str ''a'', str ''r'', str ''c'')])] \<noteq> []"
    by simp
  show ?thesis
    using corpus_metrics_from_sums
      [of "[([(str ''a'', str ''r'', str ''c'')], []), ([], [(str ''a'', str ''r'', str ''c'')])]"
        "[]" "[]", THEN conjunct1, THEN mp, OF ne]
    by (simp only: ne) auto
qed

text \<open>
  The corpus of two files that refutes the equality of C3: the first file has the gold
  triple \<open>(a, r, c)\<close> and no prediction, the second file has no gold triple and the
  prediction \<open>(a, r, c)\<close>. The aggregator reports precision, recall and F1 equal to 0 for
  triples; the direct computation over the concatenated lists reports 1.
\<close>

lemma normalize_a_r_c:
  "normalize_triplet (fmt_triplet (str ''a'', str ''r'', str ''c'')) = str ''a, r, c''"
  by (simp add: str_def normalize_triplet_def fmt_triplet_def sub_brackets_def is_bracket_def
      char_defs is_space_def strip_def)

lemma two_files_triplet:
  "calculate_metrics [(str ''a'', str ''r'', str ''c'')] []
     = Inr \<lparr>tp = 0, fp = 0, fn = 1, precision = 0, recall = 0, f1 = 0,
            unmatched_gold = [(str ''a'', str ''r'', str ''c'')], unmatched_pred = []\<rparr>"
  "calculate_metrics [] [(str ''a'', str ''r'', str ''c'')]
     = Inr \<lparr>tp = 0, fp = 1, fn = 0, precision = 0, recall = 0, f1 = 0,
            unmatched_gold = [], unmatched_pred = [(str ''a'', str ''r'', str ''c'')]\<rparr>"
  "calculate_metrics [(str ''a'', str ''r'', str ''c'')] [(str ''a'', str ''r'', str ''c'')]
     = Inr \<lparr>tp = 1, fp = 0, fn = 0, precision = 1, recall = 1, f1 = 1,
            unmatched_gold = [], unmatched_pred = []\<rparr>"
  by (simp_all add: calculate_metrics_Inr Let_def normalize_a_r_c enumerate_eq_zip pop_def
      guarded_ratio_def guarded_f1_def)

lemma two_files_entities:
  "extract_entities_and_relations [(str ''a'', str ''r'', str ''c'')] True
     = ([str ''a'', str ''c''], [str ''r''])"
  "extract_entities_and_relations [] True = ([], [])"
  by code_simp+

lemma two_files_entity_metrics:
  "calculate_entity_metrics [str ''a'', str ''c''] []
     = Inr \<lparr>tp = 0, fp = 0, fn = 2, precision = 0, recall = 0, f1 = 0,
            unmatched_gold = [str ''a'', str ''c''], unmatched_pred = [],
            type_stats = [(UNKNOWN_TYPE, \<lparr>t_tp = 0, t_fp = 0, t_fn = 2,
                            t_precision = 0, t_recall = 0, t_f1 = 0\<rparr>)]\<rparr>"
  "calculate_entity_metrics [] [str ''a'', str ''c'']
     = Inr \<lparr>tp = 0, fp = 2, fn = 0, precision = 0, recall = 0, f1 = 0,
            unmatched_gold = [], unmatched_pred = [str ''a'', str ''c''],
            type_stats = [(UNKNOWN_TYPE, \<lparr>t_tp = 0, t_fp = 2, t_fn = 0,
                            t_precision = 0, t_recall = 0, t_f1 = 0\<rparr>)]\<rparr>"
  by (simp_all add: calculate_entity_metrics_def calculate_typed_metrics_Inr Let_def
      extract_entity_type_def str_def COLON_def zero_counts_def inc_fn_def inc_fp_def
      guarded_ratio_def guarded_f1_def)

lemma two_files_relation_metrics:
  "calculate_relation_metrics [str ''r''] []
     = Inr \<lparr>tp = 0, fp = 0, fn = 1, precision = 0, recall = 0, f1 = 0,
            unmatched_gold = [str ''r''], unmatched_pred = [],
            type_stats = [(str ''r'', \<lparr>t_tp = 0, t_fp = 0, t_fn = 1,
                            t_precision = 0, t_recall = 0, t_f1 = 0\<rparr>)]\<rparr>"
  "calculate_relation_metrics [] [str ''r'']
     = Inr \<lparr>tp = 0, fp = 1, fn = 0, precision = 0, recall = 0, f1 = 0,
            unmatched_gold = [], unmatched_pred = [str ''r''],
            type_stats = [(str ''r'', \<lparr>t_tp = 0, t_fp = 1, t_fn = 0,
                            t_precision = 0, t_recall = 0, t_f1 = 0\<rparr>)]\<rparr>"
  by code_simp+

theorem corpus_differs_from_flattened:
  "process_folders [([(str ''a'', str ''r'', str ''c'')], []), ([], [(str ''a'', str ''r'', str ''c'')])]
     = Some (Inr \<lparr>overall_triplet = \<lparr>o_tp = 0, o_fp = 1, o_fn = 1,
                                        o_precision = 0, o_recall = 0, o_f1 = 0\<rparr>,
                    overall_entity = \<lparr>o_tp = 0, o_fp = 2, o_fn = 2,
                                       o_precision = 0, o_recall = 0, o_f1 = 0\<rparr>,
                    overall_relation = \<lparr>o_tp = 0, o_fp = 1, o_fn = 1,
                                         o_precision = 0, o_recall = 0, o_f1 = 0\<rparr>\<rparr>)
   \<and> calculate_metrics ([(str ''a'', str ''r'', str ''c'')] @ []) ([] @ [(str ''a'', str ''r'', str ''c'')])
     = Inr \<lparr>tp = 1, fp = 0, fn = 0, precision = 1, recall = 1, f1 = 1,
            unmatched_gold = [], unmatched_pred = []\<rparr>"
  by (simp add: process_folders_def process_file_pair_def two_files_triplet two_files_entities
      two_files_entity_metrics two_files_relation_metrics zero_counts_def overall_of_guarded
      guarded_ratio_def guarded_f1_def then_do_def)

section \<open>The normalizer is idempotent\<close>

lemma space_facts: "is_space SPACE" "\<not> is_space COMMA" "SPACE \<noteq> COMMA"
  by (simp_all add: is_space_def SPACE_def COMMA_def)

lemma dropWhile_nonspace: "xs = [] \<or> \<not> is_space (hd xs) \<Longrightarrow> dropWhile is_space xs = xs"
  by (cases xs) auto

subsection \<open>After the comma step\<close>

lemma sub_comma_head_comma:
  assumes eq: "sub_comma cs = COMMA # xs"
  shows "\<exists>ds. dropWhile is_space cs = COMMA # ds"
proof (cases cs)
  case Nil
  then show ?thesis using eq by simp
next
  case (Cons c cs')
  show ?thesis
  proof (cases "dropWhile is_space (c # cs')")
    case Nil
    then have "is_space c" by (auto split: if_splits)
    moreover have "c = COMMA" using eq Cons Nil by simp
    ultimately show ?thesis using space_facts by simp
  next
    case (Cons d ds)
    note dw = this
    show ?thesis
    proof (cases "d = COMMA")
      case True
      then show ?thesis using dw \<open>cs = c # cs'\<close> by simp
    next
      case False
      then have "c = COMMA" using eq dw \<open>cs = c # cs'\<close> by simp
      then have "dropWhile is_space (c # cs') = c # cs'" using space_facts by simp
      then show ?thesis using dw False \<open>c = COMMA\<close> by simp
    qed
  qed
qed

lemma sub_comma_head_nonspace:
  "rest = [] \<or> \<not> is_space (hd rest)
   \<Longrightarrow> sub_comma rest = [] \<or> \<not> is_space (hd (sub_comma rest))"
proof (cases rest)
  case Nil
  then show ?thesis by simp
next
  case (Cons e es)
  assume "rest = [] \<or> \<not> is_space (hd rest)"
  then have ns: "\<not> is_space e" using Cons by simp
  then have "dropWhile is_space (e # es) = e # es" by simp
  then show ?thesis using Cons ns space_facts by simp
qed

lemma comma_shaped_cons:
  "c \<noteq> COMMA \<Longrightarrow>
   comma_shaped (c # xs) = ((\<not> is_space c \<or> xs = [] \<or> hd xs \<noteq> COMMA) \<and> comma_shaped xs)"
  by (cases xs) auto

lemma comma_shaped_sub_comma: "comma_shaped (sub_comma s)"
proof (induction s rule: sub_comma.induct)
  case 1
  then show ?case by simp
next
  case (2 c cs)
  show ?case
  proof (cases "dropWhile is_space (c # cs)")
    case Nil
    then have sp: "is_space c" and rest: "dropWhile is_space cs = []"
      by (auto split: if_splits)
    have c: "c \<noteq> COMMA" using sp space_facts by auto
    have hd: "sub_comma cs = [] \<or> hd (sub_comma cs) \<noteq> COMMA"
    proof (cases "sub_comma cs")
      case Nil
      then show ?thesis by simp
    next
      case (Cons x xs)
      have "x \<noteq> COMMA"
      proof
        assume "x = COMMA"
        then obtain ds where "dropWhile is_space cs = COMMA # ds"
          using sub_comma_head_comma Cons by blast
        then show False using rest by simp
      qed
      then show ?thesis using Cons by simp
    qed
    have "sub_comma (c # cs) = c # sub_comma cs" using Nil by simp
    then show ?thesis using 2(1) [OF Nil] c hd by (simp add: comma_shaped_cons)
  next
    case (Cons d ds)
    note dw = this
    show ?thesis
    proof (cases "d = COMMA")
      case True
      have out: "sub_comma (c # cs) = COMMA # SPACE # sub_comma (dropWhile is_space ds)"
        using dw True by simp
      have "dropWhile is_space ds = [] \<or> \<not> is_space (hd (dropWhile is_space ds))"
        using hd_dropWhile [of is_space ds] by blast
      then have hd: "sub_comma (dropWhile is_space ds) = []
          \<or> \<not> is_space (hd (sub_comma (dropWhile is_space ds)))"
        by (rule sub_comma_head_nonspace)
      show ?thesis unfolding out using 2(2) [OF dw True] hd by simp
    next
      case False
      have out: "sub_comma (c # cs) = c # sub_comma cs" using dw False by simp
      have c: "c \<noteq> COMMA"
      proof (cases "is_space c")
        case True
        then show ?thesis using space_facts by auto
      next
        case False
        then have "d = c" using dw by simp
        then show ?thesis using \<open>d \<noteq> COMMA\<close> by simp
      qed
      have hd: "\<not> is_space c \<or> sub_comma cs = [] \<or> hd (sub_comma cs) \<noteq> COMMA"
      proof (cases "is_space c")
        case False
        then show ?thesis by simp
      next
        case True
        then have rest: "dropWhile is_space cs = d # ds" using dw by simp
        show ?thesis
        proof (cases "sub_comma cs")
          case Nil
          then show ?thesis by simp
        next
          case (Cons x xs)
          have "x \<noteq> COMMA"
          proof
            assume "x = COMMA"
            then obtain ds' where "dropWhile is_space cs = COMMA # ds'"
              using sub_comma_head_comma Cons by blast
            then show False using rest \<open>d \<noteq> COMMA\<close> by simp
          qed
          then show ?thesis using Cons by simp
        qed
      qed
      show ?thesis unfolding out using 2(3) [OF dw False] c hd by (simp add: comma_shaped_cons)
    qed
  qed
qed

subsection \<open>After the whitespace step\<close>

lemma spaced_other: "c \<noteq> COMMA \<Longrightarrow> \<not> is_space c \<Longrightarrow> spaced e (c # xs) = spaced e xs"
  by (cases xs) auto

lemma sub_spaces_nonspace: "\<not> is_space x \<Longrightarrow> sub_spaces (x # xs) = x # sub_spaces xs"
  by simp

lemma sub_spaces_head:
  "ds = [] \<or> \<not> is_space (hd ds) \<Longrightarrow> sub_spaces ds = [] \<or> \<not> is_space (hd (sub_spaces ds))"
  by (cases ds) auto

lemma spaced_sub_spaces: "comma_shaped t \<Longrightarrow> spaced False (sub_spaces t)"
proof (induction t rule: comma_shaped.induct)
  case 1
  then show ?case by simp
next
  case (2 c)
  then show ?case using space_facts by auto
next
  case (3 c d ds)
  consider "c = COMMA" | "c \<noteq> COMMA" "is_space c" | "c \<noteq> COMMA" "\<not> is_space c" by blast
  then show ?case
  proof cases
    case 1
    then have d: "d = SPACE" and hd: "ds = [] \<or> \<not> is_space (hd ds)" and rest: "comma_shaped ds"
      using "3.prems" by simp_all
    have out: "sub_spaces (c # d # ds) = COMMA # SPACE # sub_spaces ds"
      using 1 d hd space_facts by (simp add: dropWhile_nonspace)
    show ?thesis
      unfolding out using "3.IH"(1) [OF 1 rest] sub_spaces_head [OF hd] by simp
  next
    case 2
    then have d: "d \<noteq> COMMA" and rest: "comma_shaped (d # ds)" using "3.prems" by simp_all
    have ih: "spaced False (sub_spaces (d # ds))" using "3.IH"(2) [OF 2 rest] .
    show ?thesis
    proof (cases "is_space d")
      case True
      then have "sub_spaces (c # d # ds) = sub_spaces (d # ds)" using 2 by simp
      then show ?thesis using ih by simp
    next
      case False
      then have "sub_spaces (c # d # ds) = SPACE # d # sub_spaces ds" using 2 by simp
      moreover have "spaced False (d # sub_spaces ds)" using ih False by simp
      ultimately show ?thesis using False d space_facts by simp
    qed
  next
    case 3
    then have rest: "comma_shaped (d # ds)" using "3.prems" by simp
    have "sub_spaces (c # d # ds) = c # sub_spaces (d # ds)" using 3 by simp
    then show ?thesis using "3.IH"(3) [OF 3 rest] 3 by (simp add: spaced_other)
  qed
qed

lemma spaced_weaken: "spaced e t \<Longrightarrow> spaced True t"
  by (induction e t rule: spaced.induct) (auto split: if_splits)

lemma sub_spaces_spaced: "spaced e t \<Longrightarrow> sub_spaces t = t"
proof (induction e t rule: spaced.induct)
  case (1 e)
  then show ?case by simp
next
  case (2 e c)
  then show ?case using space_facts by (auto split: if_splits)
next
  case (3 e c d ds)
  consider "c = COMMA" | "c \<noteq> COMMA" "is_space c" | "c \<noteq> COMMA" "\<not> is_space c" by blast
  then show ?case
  proof cases
    case 1
    then have d: "d = SPACE" and hd: "ds = [] \<or> \<not> is_space (hd ds)" and rest: "spaced e ds"
      using "3.prems" by simp_all
    have "sub_spaces (c # d # ds) = COMMA # SPACE # sub_spaces ds"
      using 1 d hd space_facts by (simp add: dropWhile_nonspace)
    then show ?thesis using "3.IH"(1) [OF 1] rest "3.prems" 1 d by simp
  next
    case 2
    then have c: "c = SPACE" and d: "\<not> is_space d" and rest: "spaced e (d # ds)"
      using "3.prems" by simp_all
    have "sub_spaces (c # d # ds) = SPACE # sub_spaces (d # ds)" using 2 d by simp
    then show ?thesis using "3.IH"(2) [OF 2] rest "3.prems" c by simp
  next
    case 3
    then have rest: "spaced e (d # ds)" using "3.prems" by simp
    have "sub_spaces (c # d # ds) = c # sub_spaces (d # ds)" using 3 by simp
    then show ?thesis using "3.IH"(3) [OF 3] rest "3.prems" by simp
  qed
qed

subsection \<open>A normalized string through the comma step\<close>

lemma respace_cons: "xs \<noteq> [] \<or> c \<noteq> COMMA \<Longrightarrow> respace (c # xs) = c # respace xs"
  by (cases xs) auto

lemma respace_head: "ds = [] \<or> \<not> is_space (hd ds) \<Longrightarrow> respace ds = [] \<or> \<not> is_space (hd (respace ds))"
  by (cases ds rule: respace.cases) auto

lemma sub_comma_spaced: "spaced e t \<Longrightarrow> sub_comma t = respace t"
proof (induction e t rule: spaced.induct)
  case (1 e)
  then show ?case by simp
next
  case (2 e c)
  show ?case
  proof (cases "c = COMMA")
    case True
    then show ?thesis using space_facts by simp
  next
    case False
    then show ?thesis by (cases "is_space c") simp_all
  qed
next
  case (3 e c d ds)
  consider "c = COMMA" | "c \<noteq> COMMA" "is_space c" | "c \<noteq> COMMA" "\<not> is_space c" by blast
  then show ?case
  proof cases
    case 1
    then have d: "d = SPACE" and hd: "ds = [] \<or> \<not> is_space (hd ds)" and rest: "spaced e ds"
      using "3.prems" by simp_all
    have "dropWhile is_space (c # d # ds) = c # d # ds" using 1 space_facts by simp
    then have "sub_comma (c # d # ds) = COMMA # SPACE # sub_comma (dropWhile is_space (d # ds))"
      using 1 by simp
    also have "dropWhile is_space (d # ds) = ds"
      using d hd space_facts by (simp add: dropWhile_nonspace)
    also have "sub_comma ds = respace ds" using "3.IH"(1) [OF 1] rest "3.prems" by simp
    also have "COMMA # SPACE # respace ds = respace (c # d # ds)"
      using 1 d space_facts by (simp add: respace_cons)
    finally show ?thesis .
  next
    case 2
    then have c: "c = SPACE" and d: "\<not> is_space d" "d \<noteq> COMMA" and rest: "spaced e (d # ds)"
      using "3.prems" by simp_all
    have "dropWhile is_space (c # d # ds) = d # ds" using 2 d by simp
    then have "sub_comma (c # d # ds) = c # sub_comma (d # ds)" using d by simp
    then show ?thesis using "3.IH"(2) [OF 2] rest "3.prems" by simp
  next
    case 3
    then have rest: "spaced e (d # ds)" using "3.prems" by simp
    have "dropWhile is_space (c # d # ds) = c # d # ds" using 3 by simp
    then have "sub_comma (c # d # ds) = c # sub_comma (d # ds)" using 3 by simp
    then show ?thesis using "3.IH"(3) [OF 3] rest "3.prems" by simp
  qed
qed

lemma spaced_respace: "spaced e t \<Longrightarrow> spaced False (respace t)"
proof (induction e t rule: spaced.induct)
  case (1 e)
  then show ?case by simp
next
  case (2 e c)
  then show ?case using space_facts by (auto split: if_splits)
next
  case (3 e c d ds)
  consider "c = COMMA" | "c \<noteq> COMMA" "is_space c" | "c \<noteq> COMMA" "\<not> is_space c" by blast
  then show ?case
  proof cases
    case 1
    then have d: "d = SPACE" and hd: "ds = [] \<or> \<not> is_space (hd ds)" and rest: "spaced e ds"
      using "3.prems" by simp_all
    have out: "respace (c # d # ds) = COMMA # SPACE # respace ds"
      using 1 d space_facts by (simp add: respace_cons)
    show ?thesis
      unfolding out using "3.IH"(1) [OF 1] rest "3.prems" respace_head [OF hd] by simp
  next
    case 2
    then have c: "c = SPACE" and d: "\<not> is_space d" "d \<noteq> COMMA" and rest: "spaced e (d # ds)"
      using "3.prems" by simp_all
    have out: "respace (c # d # ds) = SPACE # d # respace ds"
      using c d by (simp add: respace_cons)
    have "spaced False (respace (d # ds))" using "3.IH"(2) [OF 2] rest "3.prems" by simp
    then have "spaced False (d # respace ds)" using d by (simp add: respace_cons)
    then show ?thesis unfolding out using d space_facts by simp
  next
    case 3
    then have rest: "spaced e (d # ds)" using "3.prems" by simp
    have "spaced False (respace (d # ds))" using "3.IH"(3) [OF 3] rest "3.prems" by simp
    then show ?thesis using 3 by (simp add: spaced_other)
  qed
qed

subsection \<open>Stripping\<close>

lemma strip_fixed:
  assumes "t = [] \<or> (\<not> is_space (hd t) \<and> \<not> is_space (last t))"
  shows "strip t = t"
proof (cases "t = []")
  case True
  then show ?thesis by (simp add: strip_def)
next
  case False
  then have "dropWhile is_space t = t" using assms by (simp add: dropWhile_nonspace)
  moreover have "dropWhile is_space (rev t) = rev t"
    using assms False by (intro dropWhile_nonspace) (simp add: hd_rev)
  ultimately show ?thesis by (simp add: strip_def)
qed

lemma dropWhile_all: "list_all P t \<Longrightarrow> dropWhile P t = []"
  by (induction t) auto

lemma strip_snoc:
  assumes "is_space c"
  shows "strip (t @ [c]) = strip t"
proof (cases "list_all is_space t")
  case True
  then have "list_all is_space (t @ [c])" using assms by simp
  then have a: "dropWhile is_space (t @ [c]) = []" by (rule dropWhile_all)
  have b: "dropWhile is_space t = []" using True by (rule dropWhile_all)
  show ?thesis unfolding strip_def a b by (rule refl)
next
  case False
  then obtain x where "x \<in> set t" "\<not> is_space x" by (auto simp: list_all_iff)
  then have "dropWhile is_space (t @ [c]) = dropWhile is_space t @ [c]"
    by (simp add: dropWhile_append1)
  then show ?thesis using assms by (simp add: strip_def)
qed

lemma last_dropWhile: "dropWhile P r \<noteq> [] \<Longrightarrow> last (dropWhile P r) = last r"
  by (induction r) (auto split: if_splits)

lemma strip_ends:
  "strip x = [] \<or> (\<not> is_space (hd (strip x)) \<and> \<not> is_space (last (strip x)))"
proof (cases "strip x = []")
  case True
  then show ?thesis by simp
next
  case False
  define y where "y = dropWhile is_space x"
  define z where "z = dropWhile is_space (rev y)"
  have sx: "strip x = rev z" by (simp add: strip_def y_def z_def)
  have z: "z \<noteq> []" using False sx by simp
  then have y: "y \<noteq> []" by (auto simp: z_def)
  have "\<not> is_space (hd z)" using z unfolding z_def by (rule hd_dropWhile)
  then have l: "\<not> is_space (last (strip x))" using z by (simp add: sx last_rev)
  have "last z = last (rev y)" using z unfolding z_def by (rule last_dropWhile)
  then have "hd (strip x) = hd y" using z y by (simp add: sx hd_rev last_rev)
  moreover have "\<not> is_space (hd y)" using y unfolding y_def by (rule hd_dropWhile)
  ultimately show ?thesis using l by simp
qed

lemma spaced_dropWhile:
  assumes "spaced e t"
  shows "spaced e (dropWhile is_space t)"
proof (cases t)
  case Nil
  then show ?thesis by simp
next
  case (Cons c cs)
  show ?thesis
  proof (cases "is_space c")
    case False
    then show ?thesis using assms Cons by simp
  next
    case True
    then have c: "c \<noteq> COMMA" using space_facts by auto
    show ?thesis
    proof (cases cs)
      case Nil
      then show ?thesis using Cons True by simp
    next
      case (Cons d ds)
      then have "\<not> is_space d" "spaced e (d # ds)"
        using assms \<open>t = c # cs\<close> True c by simp_all
      then show ?thesis using Cons \<open>t = c # cs\<close> True by simp
    qed
  qed
qed

lemma spaced_butlast:
  "spaced e (xs @ [c]) \<Longrightarrow> is_space c
   \<Longrightarrow> spaced True xs \<and> (xs = [] \<or> \<not> is_space (last xs))"
proof (induction e xs rule: spaced.induct)
  case (1 e)
  then show ?case by simp
next
  case (2 e x)
  then show ?case using space_facts by (auto split: if_splits)
next
  case (3 e x d ds)
  have sp: "spaced e (x # d # (ds @ [c]))" using "3.prems"(1) by simp
  consider "x = COMMA" | "x \<noteq> COMMA" "is_space x" | "x \<noteq> COMMA" "\<not> is_space x" by blast
  then show ?case
  proof cases
    case 1
    then have d: "d = SPACE" and hd: "\<not> is_space (hd (ds @ [c]))" and rest: "spaced e (ds @ [c])"
      using sp by simp_all
    have ne: "ds \<noteq> []" using hd "3.prems"(2) by auto
    from "3.IH"(1) [OF 1 rest "3.prems"(2)]
    have ih: "spaced True ds" "\<not> is_space (last ds)" using ne by simp_all
    show ?thesis using 1 d hd ne ih by simp
  next
    case 2
    then have x: "x = SPACE" and d: "\<not> is_space d" "d \<noteq> COMMA"
      and rest: "spaced e ((d # ds) @ [c])"
      using sp by simp_all
    from "3.IH"(2) [OF 2 rest "3.prems"(2)]
    show ?thesis using 2 x d by simp
  next
    case 3
    then have rest: "spaced e ((d # ds) @ [c])" using sp by simp
    from "3.IH"(3) [OF 3 rest "3.prems"(2)]
    show ?thesis using 3 by simp
  qed
qed

lemma spaced_strip:
  assumes "spaced e t"
  shows "spaced True (strip t)"
proof -
  define y where "y = dropWhile is_space t"
  have y: "spaced e y" unfolding y_def using assms by (rule spaced_dropWhile)
  show ?thesis
  proof (cases "y = [] \<or> \<not> is_space (last y)")
    case True
    then have "dropWhile is_space (rev y) = rev y"
      by (intro dropWhile_nonspace) (auto simp: hd_rev)
    then have "strip t = y" by (simp add: strip_def y_def)
    then show ?thesis using y spaced_weaken by simp
  next
    case False
    then have ne: "y \<noteq> []" and sp: "is_space (last y)" by simp_all
    obtain b l where split: "y = b @ [l]" using ne by (cases y rule: rev_cases) auto
    have l: "is_space l" using sp split by simp
    have "spaced e (b @ [l])" using y split by simp
    from spaced_butlast [OF this l]
    have b: "spaced True b" "b = [] \<or> \<not> is_space (last b)"
      by simp_all
    have hd: "rev b = [] \<or> \<not> is_space (hd (rev b))"
      using b(2) by (auto simp: hd_rev)
    have "dropWhile is_space (rev y) = dropWhile is_space (rev b)"
      using l by (simp add: split)
    also have "\<dots> = rev b"
      using hd by (rule dropWhile_nonspace)
    finally have "strip t = b" by (simp add: strip_def y_def)
    then show ?thesis using b(1) by simp
  qed
qed

lemma respace_cases: "respace t = t \<or> respace t = t @ [SPACE]"
  by (induction t rule: respace.induct) auto

lemma strip_respace: "strip (respace t) = strip t"
  using respace_cases [of t] strip_snoc [of SPACE t] space_facts by auto

subsection \<open>No bracket survives\<close>

lemma set_sub_spaces: "set (sub_spaces s) \<subseteq> insert SPACE (set s)"
proof (induction s rule: sub_spaces.induct)
  case 1
  then show ?case by simp
next
  case (2 c cs)
  show ?case
  proof (cases "is_space c")
    case True
    have "set (dropWhile is_space cs) \<subseteq> set cs" by (auto dest: set_dropWhileD)
    then show ?thesis using 2(1) [OF True] True by auto
  next
    case False
    then show ?thesis using 2(2) [OF False] by auto
  qed
qed

lemma set_strip: "set (strip s) \<subseteq> set s"
proof
  fix x assume "x \<in> set (strip s)"
  then have "x \<in> set (dropWhile is_space (rev (dropWhile is_space s)))"
    by (simp add: strip_def)
  then have "x \<in> set (rev (dropWhile is_space s))" by (rule set_dropWhileD)
  then have "x \<in> set (dropWhile is_space s)" by simp
  then show "x \<in> set s" by (rule set_dropWhileD)
qed

lemma normalize_triplet_steps:
  "normalize_triplet s = strip (sub_spaces (sub_comma (sub_brackets s)))"
  using no_lparen_before_step3 [of s]
  by (simp add: normalize_triplet_def sub_paren_no_lparen)

lemma sub_brackets_normalized: "sub_brackets (normalize_triplet s) = normalize_triplet s"
proof -
  have "\<not> is_bracket c" if "c \<in> set (normalize_triplet s)" for c
  proof -
    have "c \<in> set (sub_spaces (sub_comma (sub_brackets s)))"
      using that set_strip unfolding normalize_triplet_steps by blast
    then have "c = SPACE \<or> c \<in> set (sub_comma (sub_brackets s))"
      using set_sub_spaces by blast
    then have "c = SPACE \<or> c = COMMA \<or> c \<in> set (sub_brackets s)"
      using set_sub_comma by blast
    then show ?thesis
      using no_bracket_sub_brackets
      by (auto simp: is_bracket_def char_defs)
  qed
  then show ?thesis by (simp add: sub_brackets_def)
qed

text \<open>
  C6. The normalizer is idempotent: for every string \<open>s\<close>, normalizing the normalized
  form of \<open>s\<close> returns it unchanged.
\<close>

theorem normalize_triplet_idempotent:
  "normalize_triplet (normalize_triplet s) = normalize_triplet s"
proof -
  define t where "t = sub_spaces (sub_comma (sub_brackets s))"
  define z where "z = strip t"
  have n: "normalize_triplet s = z" by (simp add: normalize_triplet_steps t_def z_def)
  have "spaced False t" unfolding t_def by (rule spaced_sub_spaces [OF comma_shaped_sub_comma])
  then have z: "spaced True z" unfolding z_def by (rule spaced_strip)
  have fixed: "strip z = z" unfolding z_def by (rule strip_fixed [OF strip_ends])
  have "normalize_triplet z = strip (sub_spaces (sub_comma (sub_brackets z)))"
    by (rule normalize_triplet_steps)
  also have "sub_brackets z = z" using sub_brackets_normalized [of s] n by simp
  also have "sub_comma z = respace z" using z by (rule sub_comma_spaced)
  also have "sub_spaces (respace z) = respace z"
    by (rule sub_spaces_spaced [OF spaced_respace [OF z]])
  also have "strip (respace z) = z" using fixed by (simp add: strip_respace)
  finally show ?thesis by (simp add: n)
qed

end
